theory Spec2Isabelle
  imports Complex_Main "HOL-Library.Word"
begin

section \<open>AIngest: the bundler (internal/bundler/bundler.go)\<close>

subsection \<open>Library: filepath.Ext\<close>

text \<open>
  Go's \<^verbatim>\<open>filepath.Ext\<close> (Unix, separator \<^verbatim>\<open>/\<close>) scans the path backwards from its
  last byte and stops at the first separator; at the first dot it returns the suffix that
  starts there:
  \<^verbatim>\<open>
  for i := len(path) - 1; i >= 0 && !os.IsPathSeparator(path[i]); i-- {
      if path[i] == '.' { return path[i:] }
  }
  return ""
  \<close>
  \<open>ext_scan\<close> takes the bytes still to scan (reversed, so the head is \<open>path[i]\<close>) and
  the bytes already passed (\<open>path[i+1:]\<close>).
\<close>

fun ext_scan :: "string \<Rightarrow> string \<Rightarrow> string" where
  "ext_scan [] passed = []"
| "ext_scan (c # front) passed =
     (if c = CHR ''/'' then []
      else if c = CHR ''.'' then c # passed
      else ext_scan front (c # passed))"

definition Ext :: "string \<Rightarrow> string" where
  "Ext path = ext_scan (rev path) []"

subsection \<open>Classification: detectMIME and classifyType\<close>

text \<open>A Go \<^verbatim>\<open>switch\<close> on a string compares the bytes exactly; the cases are tried in order.\<close>

definition detectMIME :: "string \<Rightarrow> string" where
  "detectMIME path =
     (let ext = Ext path in
      if ext = ''.md'' then ''text/markdown''
      else if ext = ''.txt'' then ''text/plain''
      else if ext = ''.json'' then ''application/json''
      else if ext = ''.go'' then ''text/x-go''
      else if ext = ''.rtf'' then ''application/rtf''
      else ''application/octet-stream'')"

definition classifyType :: "string \<Rightarrow> string" where
  "classifyType ext =
     (if ext \<in> set [''.go'', ''.js'', ''.ts'', ''.py'', ''.cs'', ''.java''] then ''code''
      else if ext \<in> set [''.json'', ''.yaml'', ''.yml'', ''.toml'', ''.plist'', ''.csv''] then ''data''
      else if ext \<in> set [''.md'', ''.txt'', ''.rtf''] then ''text''
      else ''binary'')"

subsection \<open>Library: filepath.Clean, filepath.Join and filepath.Rel (Unix)\<close>

text \<open>
  The loop of Go's \<^verbatim>\<open>filepath.Clean\<close>. The first argument is the unread rest of the
  path (\<open>path[r:]\<close>), \<open>out\<close> is the output buffer (its length is \<open>out.w\<close>) and
  \<open>dotdot\<close> the index in the buffer below which \<^verbatim>\<open>..\<close> must not backtrack. The cases of
  the \<^verbatim>\<open>switch\<close> are kept in their order: an empty element, a \<^verbatim>\<open>.\<close> element, a
  \<^verbatim>\<open>..\<close> element, a real element. The loop's final variables are returned.
\<close>

fun backtrack :: "string \<Rightarrow> nat \<Rightarrow> nat \<Rightarrow> nat" where
  "backtrack out dotdot 0 = 0"
| "backtrack out dotdot (Suc w) =
     (if Suc w > dotdot \<and> out ! Suc w \<noteq> CHR ''/'' then backtrack out dotdot w else Suc w)"

definition not_sep :: "char \<Rightarrow> bool" where
  "not_sep c = (c \<noteq> CHR ''/'')"

text \<open>The \<^verbatim>\<open>..\<close> element: backtrack to the last separator, or append \<^verbatim>\<open>..\<close> to a path that is not rooted.\<close>

definition dotdot_element :: "bool \<Rightarrow> string \<Rightarrow> nat \<Rightarrow> string \<times> nat" where
  "dotdot_element rooted out dotdot =
     (if length out > dotdot then (take (backtrack out dotdot (length out - 1)) out, dotdot)
      else if \<not> rooted then
        (let out' = (if length out > 0 then out @ ''/'' else out) @ ''..''
         in (out', length out'))
      else (out, dotdot))"

text \<open>A real path element: add a slash if needed.\<close>

definition add_slash :: "bool \<Rightarrow> string \<Rightarrow> string" where
  "add_slash rooted out =
     (if rooted \<and> length out \<noteq> 1 \<or> \<not> rooted \<and> length out \<noteq> 0 then out @ ''/'' else out)"

function clean_loop :: "string \<Rightarrow> bool \<Rightarrow> string \<Rightarrow> nat \<Rightarrow> string \<times> nat" where
  "clean_loop [] rooted out dotdot = (out, dotdot)"
| "clean_loop (c # cs) rooted out dotdot =
     (if c = CHR ''/'' then clean_loop cs rooted out dotdot
      else if c = CHR ''.'' \<and> (cs = [] \<or> hd cs = CHR ''/'') then clean_loop cs rooted out dotdot
      else if c = CHR ''.'' \<and> hd cs = CHR ''.'' \<and> (tl cs = [] \<or> hd (tl cs) = CHR ''/'') then
        (case dotdot_element rooted out dotdot of
           (out', dotdot') \<Rightarrow> clean_loop (tl cs) rooted out' dotdot')
      else
        clean_loop (dropWhile not_sep (c # cs)) rooted
          (add_slash rooted out @ takeWhile not_sep (c # cs)) dotdot)"
  by pat_completeness auto
termination
  by (relation "measure (\<lambda>(p, rooted, out, dotdot). length p)")
     (auto simp: not_sep_def less_Suc_eq_le length_dropWhile_le)

definition Clean :: "string \<Rightarrow> string" where
  "Clean path =
     (if path = [] then ''.''
      else
        (let rooted = (hd path = CHR ''/'');
             out = fst (if rooted then clean_loop (tl path) rooted ''/'' 1
                        else clean_loop path rooted [] 0)
         in if length out = 0 then ''.'' else out))"

text \<open>
  \<^verbatim>\<open>filepath.Join(path, name)\<close> with two elements: the elements from the first non-empty
  one on are joined with the separator and cleaned; two empty elements give the empty string.
\<close>

definition Join :: "string \<Rightarrow> string \<Rightarrow> string" where
  "Join a b =
     (if a \<noteq> [] then Clean (a @ ''/'' @ b)
      else if b \<noteq> [] then Clean b
      else [])"

text \<open>
  \<^verbatim>\<open>filepath.Rel\<close>. Its loop positions \<open>base[b0:bi]\<close> and \<open>targ[t0:ti]\<close> at the first
  elements that differ; \<open>rel_loop\<close> works on \<open>base[b0:]\<close> and \<open>targ[t0:]\<close> and returns
  \<open>(base[b0:bi], base[b0:], targ[t0:])\<close> as they are when the loop ends.
\<close>

definition skip_sep :: "string \<Rightarrow> string" where
  "skip_sep p = (if p \<noteq> [] then tl p else p)"

lemma length_skip_sep_dropWhile: "p \<noteq> [] \<Longrightarrow> length (skip_sep (dropWhile not_sep p)) < length p"
proof (cases "not_sep (hd p)")
  case True
  assume "p \<noteq> []"
  with True have "dropWhile not_sep p = dropWhile not_sep (tl p)"
    by (cases p) simp_all
  moreover have "length (dropWhile not_sep (tl p)) \<le> length (tl p)"
    by (rule length_dropWhile_le)
  moreover have "length (skip_sep q) \<le> length q" for q
    by (simp add: skip_sep_def)
  moreover have "length (tl p) < length p"
    using \<open>p \<noteq> []\<close> by (cases p) simp_all
  ultimately show ?thesis
    by (metis le_trans not_le)
next
  case False
  assume "p \<noteq> []"
  with False have "dropWhile not_sep p = p"
    by (cases p) simp_all
  with \<open>p \<noteq> []\<close> show ?thesis
    by (cases p) (simp_all add: skip_sep_def)
qed

function rel_loop :: "string \<Rightarrow> string \<Rightarrow> string \<times> string \<times> string" where
  "rel_loop base targ =
     (if base = [] \<or> targ = [] then ([], base, targ)
      else if takeWhile not_sep targ \<noteq> takeWhile not_sep base
        then (takeWhile not_sep base, base, targ)
      else rel_loop (skip_sep (dropWhile not_sep base)) (skip_sep (dropWhile not_sep targ)))"
  by pat_completeness auto
termination
  by (relation "measure (\<lambda>(base, targ). length base)")
     (simp_all add: length_skip_sep_dropWhile)

definition Rel :: "string \<Rightarrow> string \<Rightarrow> string \<times> string option" where
  "Rel basepath targpath =
     (let base = Clean basepath; targ = Clean targpath in
      if targ = base then (''.'', None)
      else
        (let base = (if base = ''.'' then [] else base) in
         if (base \<noteq> [] \<and> hd base = CHR ''/'') \<noteq> (targ \<noteq> [] \<and> hd targ = CHR ''/'')
         then ([], Some (''Rel: can't make '' @ targpath @ '' relative to '' @ basepath))
         else
           (case rel_loop base targ of (belem, brest, trest) \<Rightarrow>
              if belem = ''..''
              then ([], Some (''Rel: can't make '' @ targpath @ '' relative to '' @ basepath))
              else if brest \<noteq> [] then
                (let seps = length (filter (\<lambda>c. c = CHR ''/'') brest)
                 in (''..'' @ concat (replicate seps ''/..'')
                       @ (if trest \<noteq> [] then ''/'' @ trest else []), None))
              else (trest, None))))"

subsection \<open>The schema (package schema)\<close>

text \<open>
  \<^verbatim>\<open>int64\<close> is a 64-bit word, whose addition wraps around. Go's \<^verbatim>\<open>int\<close> holds lengths
  and counts here and is an \<open>int\<close>; \<^verbatim>\<open>float64\<close> only ever holds its zero value here and
  is a \<open>real\<close>. A \<^verbatim>\<open>time.Time\<close> is an instant, an \<open>int\<close>. A pointer or a map that may be
  \<^verbatim>\<open>nil\<close> is an \<open>option\<close>; the maps are never populated and are association lists.
\<close>

type_synonym int64 = "64 word"
type_synonym time = int

record SectionData =
  ID :: string
  Type :: string
  Heading :: string
  SectionLanguage :: string
  Content :: string
  Items :: "string list"
  Table :: "string list list"
  Attributes :: "(string \<times> string) list option"

record DocumentData =
  Title :: string
  DocSummary :: string
  Sections :: "SectionData list"

record FileBundle =
  Path :: string
  RelativePath :: string
  Name :: string
  Extension :: string
  MIMEType :: string
  FileType :: string
  Language :: string
  Encoding :: string
  SizeBytes :: int64
  Hash :: string
  CreatedAt :: time
  ModifiedAt :: time
  TokenCount :: int
  Metadata :: "(string \<times> string) list option"
  Document :: "DocumentData option"

record SummaryInfo =
  TotalFiles :: int
  TotalTokens :: int
  TotalSize :: int64
  AvgTokens :: real
  LargestFile :: string
  LargestTokens :: int
  EstimatedModel :: string

record Bundle =
  Version :: string
  BundleCreatedAt :: time
  SourceDir :: string
  Description :: string
  Files :: "FileBundle list"
  Summary :: "SummaryInfo option"
  Generator :: string
  TokenSettings :: "(string \<times> string) list option"

subsection \<open>The file system seen by filepath.Walk\<close>

text \<open>
  What \<^verbatim>\<open>os.Lstat\<close> and the reading of a directory's names return is fixed by a tree.
  A node is an entry on which \<^verbatim>\<open>Lstat\<close> fails (\<open>NoStat\<close>, with its name and the
  error), a non-directory (\<open>File\<close>: name, size, modification time), a directory with its
  entries in the order \<^verbatim>\<open>readDirNames\<close> lists them (\<open>Dir\<close>), or a directory whose
  names cannot be read (\<open>NoRead\<close>, with the error). \<^verbatim>\<open>Lstat\<close> does not follow symbolic
  links, so a link is a \<open>File\<close>.
\<close>

record FileInfo =
  fi_Name :: string
  fi_Size :: int64
  fi_ModTime :: time
  fi_IsDir :: bool

datatype fsnode =
    NoStat string string
  | File string int64 time
  | Dir string int64 time "fsnode list"
  | NoRead string int64 time string

fun entry_name :: "fsnode \<Rightarrow> string" where
  "entry_name (NoStat n e) = n"
| "entry_name (File n sz mt) = n"
| "entry_name (Dir n sz mt entries) = n"
| "entry_name (NoRead n sz mt e) = n"

fun lstat :: "fsnode \<Rightarrow> string + FileInfo" where
  "lstat (NoStat n e) = Inl e"
| "lstat (File n sz mt) = Inr \<lparr>fi_Name = n, fi_Size = sz, fi_ModTime = mt, fi_IsDir = False\<rparr>"
| "lstat (Dir n sz mt entries) = Inr \<lparr>fi_Name = n, fi_Size = sz, fi_ModTime = mt, fi_IsDir = True\<rparr>"
| "lstat (NoRead n sz mt e) = Inr \<lparr>fi_Name = n, fi_Size = sz, fi_ModTime = mt, fi_IsDir = True\<rparr>"

fun readDirNames :: "fsnode \<Rightarrow> string + fsnode list" where
  "readDirNames (Dir n sz mt entries) = Inr entries"
| "readDirNames (NoRead n sz mt e) = Inl e"
| "readDirNames (File n sz mt) = Inl ''not a directory''"
| "readDirNames (NoStat n e) = Inl e"

subsection \<open>Library: filepath.Walk\<close>

text \<open>
  A Go \<^verbatim>\<open>error\<close> is one of the two sentinels of \<^verbatim>\<open>filepath\<close>, an error of the operating
  system, or (for the callback only) the panic of a \<^verbatim>\<open>nil\<close> dereference. The callback
  \<^verbatim>\<open>fn(path, info, err)\<close> also takes and returns the variables it closes over.

  \<open>walk\<close> and \<open>walk_names\<close> are the function \<^verbatim>\<open>walk\<close> of the standard library and its
  loop over the names of a directory:
  \<^verbatim>\<open>
  if !info.IsDir() { return walkFn(path, info, nil) }
  names, err := readDirNames(path)
  err1 := walkFn(path, info, err)
  if err != nil || err1 != nil { return err1 }
  for _, name := range names {
      filename := Join(path, name)
      fileInfo, err := lstat(filename)
      if err != nil {
          if err := walkFn(filename, fileInfo, err); err != nil && err != SkipDir { return err }
      } else {
          err = walk(filename, fileInfo, walkFn)
          if err != nil {
              if !fileInfo.IsDir() || err != SkipDir { return err }
          }
      }
  }
  return nil
  \<close>
  \<open>Walk\<close> calls the callback with the error when \<^verbatim>\<open>Lstat\<close> fails on the root, and
  \<open>walk\<close> otherwise; a final \<^verbatim>\<open>SkipDir\<close> or \<^verbatim>\<open>SkipAll\<close> becomes \<^verbatim>\<open>nil\<close>.
\<close>

datatype error = SkipDir | SkipAll | PathError string | NilPanic

type_synonym 's WalkFunc = "string \<Rightarrow> FileInfo option \<Rightarrow> error option \<Rightarrow> 's \<Rightarrow> error option \<times> 's"

lemma size_readDirNames: "readDirNames node = Inr names \<Longrightarrow> size_list size names < size node"
  by (cases node) auto

function walk :: "'s WalkFunc \<Rightarrow> string \<Rightarrow> FileInfo \<Rightarrow> fsnode \<Rightarrow> 's \<Rightarrow> error option \<times> 's"
  and walk_names :: "'s WalkFunc \<Rightarrow> string \<Rightarrow> fsnode list \<Rightarrow> 's \<Rightarrow> error option \<times> 's"
where
  "walk walkFn path info node s =
     (if \<not> fi_IsDir info then walkFn path (Some info) None s
      else
        (case readDirNames node of
           Inl e \<Rightarrow> walkFn path (Some info) (Some (PathError e)) s
         | Inr names \<Rightarrow>
             (case walkFn path (Some info) None s of
                (Some err1, s') \<Rightarrow> (Some err1, s')
              | (None, s') \<Rightarrow> walk_names walkFn path names s')))"
| "walk_names walkFn path [] s = (None, s)"
| "walk_names walkFn path (entry # names) s =
     (let filename = Join path (entry_name entry) in
      case lstat entry of
        Inl e \<Rightarrow>
          (case walkFn filename None (Some (PathError e)) s of
             (err, s') \<Rightarrow>
               if err \<noteq> None \<and> err \<noteq> Some SkipDir then (err, s')
               else walk_names walkFn path names s')
      | Inr fileInfo \<Rightarrow>
          (case walk walkFn filename fileInfo entry s of
             (err, s') \<Rightarrow>
               if err \<noteq> None \<and> (\<not> fi_IsDir fileInfo \<or> err \<noteq> Some SkipDir) then (err, s')
               else walk_names walkFn path names s'))"
  by pat_completeness auto
termination
  by (relation "measure (\<lambda>x. case x of
         Inl (walkFn, path, info, node, s) \<Rightarrow> size node
       | Inr (walkFn, path, names, s) \<Rightarrow> size_list size names)")
     (auto dest: size_readDirNames)

definition Walk :: "string \<Rightarrow> fsnode \<Rightarrow> 's WalkFunc \<Rightarrow> 's \<Rightarrow> error option \<times> 's" where
  "Walk rootpath fs fn s =
     (case (case lstat fs of
              Inl e \<Rightarrow> fn rootpath None (Some (PathError e)) s
            | Inr info \<Rightarrow> walk fn rootpath info fs s) of
        (err, s') \<Rightarrow>
          if err = Some SkipDir \<or> err = Some SkipAll then (None, s') else (err, s'))"

subsection \<open>The bundler\<close>

record Bundler =
  RootPath :: string
  Recursive :: bool

definition NewBundler :: "string \<Rightarrow> bool \<Rightarrow> Bundler" where
  "NewBundler rootpath recursive = \<lparr>RootPath = rootpath, Recursive = recursive\<rparr>"

text \<open>
  The record the callback builds for a file (bundler.go, lines 40 to 52). The error of
  \<^verbatim>\<open>filepath.Rel\<close> is dropped, as the code drops it; the fields the literal does not
  name have Go's zero values.
\<close>

definition fileBundle :: "Bundler \<Rightarrow> string \<Rightarrow> FileInfo \<Rightarrow> FileBundle" where
  "fileBundle b path info =
     (let rel = fst (Rel (RootPath b) path) in
      \<lparr>Path = path,
       RelativePath = rel,
       Name = fi_Name info,
       Extension = Ext path,
       MIMEType = detectMIME path,
       FileType = classifyType (Ext path),
       Language = [],
       Encoding = [],
       SizeBytes = fi_Size info,
       Hash = [],
       CreatedAt = fi_ModTime info,
       ModifiedAt = fi_ModTime info,
       TokenCount = 0,
       Metadata = None,
       Document = None\<rparr>)"

text \<open>
  The callback given to \<^verbatim>\<open>filepath.Walk\<close> (bundler.go, lines 26 to 56); its state is the
  slice \<^verbatim>\<open>files\<close>. With no error and no \<^verbatim>\<open>info\<close>, \<^verbatim>\<open>info.IsDir()\<close> would panic.
\<close>

definition walkFn :: "Bundler \<Rightarrow> FileBundle list WalkFunc" where
  "walkFn b path info err files =
     (case err of
        Some e \<Rightarrow> (Some e, files)
      | None \<Rightarrow>
          (case info of
             None \<Rightarrow> (Some NilPanic, files)
           | Some info \<Rightarrow>
               if fi_IsDir info then
                 (if \<not> Recursive b \<and> path \<noteq> RootPath b then (Some SkipDir, files)
                  else (None, files))
               else (None, files @ [fileBundle b path info])))"

text \<open>
  \<^verbatim>\<open>BuildBundle\<close>, on the file system \<open>fs\<close> found at \<open>RootPath b\<close> and with \<open>now\<close>
  the value of \<^verbatim>\<open>time.Now()\<close>. \<open>Inl\<close> is the return \<^verbatim>\<open>nil, err\<close>.
\<close>

definition BuildBundle :: "Bundler \<Rightarrow> fsnode \<Rightarrow> time \<Rightarrow> error + Bundle" where
  "BuildBundle b fs now =
     (case Walk (RootPath b) fs (walkFn b) [] of
        (Some err, files) \<Rightarrow> Inl err
      | (None, files) \<Rightarrow>
          (let totalSize = foldl (\<lambda>total f. total + SizeBytes f) 0 files;
               summary = \<lparr>TotalFiles = int (length files),
                          TotalTokens = 0,
                          TotalSize = totalSize,
                          AvgTokens = 0,
                          LargestFile = [],
                          LargestTokens = 0,
                          EstimatedModel = []\<rparr>
           in Inr \<lparr>Version = ''1.0'',
                   BundleCreatedAt = now,
                   SourceDir = RootPath b,
                   Description = ''Generated bundle (metadata only)'',
                   Files = files,
                   Summary = Some summary,
                   Generator = ''aingest v0.1.0'',
                   TokenSettings = None\<rparr>))"

subsection \<open>Auxiliary notions for the statements\<close>

text \<open>All nodes of a tree, a directory before its entries.\<close>

fun nodes :: "fsnode \<Rightarrow> fsnode list" where
  "nodes (Dir n sz mt entries) = Dir n sz mt entries # concat (map nodes entries)"
| "nodes (NoStat n e) = [NoStat n e]"
| "nodes (File n sz mt) = [File n sz mt]"
| "nodes (NoRead n sz mt e) = [NoRead n sz mt e]"

text \<open>A record is produced from a tree when the callback built it for a non-directory of the tree.\<close>

definition produced :: "Bundler \<Rightarrow> fsnode \<Rightarrow> FileBundle \<Rightarrow> bool" where
  "produced b fs f \<longleftrightarrow>
     (\<exists>p n i. n \<in> set (nodes fs) \<and> lstat n = Inr i \<and> \<not> fi_IsDir i \<and> f = fileBundle b p i)"

text \<open>A small project directory, used to run the definitions.\<close>

definition sample_tree :: fsnode where
  "sample_tree =
     Dir ''proj'' 4096 100
       [File ''a.md'' 10 5,
        Dir ''sub'' 4096 7 [File ''deep.go'' 3 9],
        File ''z.BIN'' 7 6]"

text \<open>
  A name that a directory listing can hold: not empty, without a separator, and neither
  \<^verbatim>\<open>.\<close> nor \<^verbatim>\<open>..\<close> (Go's \<^verbatim>\<open>Readdirnames\<close> leaves both out).
\<close>

definition valid_name :: "string \<Rightarrow> bool" where
  "valid_name n \<longleftrightarrow> n \<noteq> [] \<and> CHR ''/'' \<notin> set n \<and> n \<noteq> ''.'' \<and> n \<noteq> ''..''"

text \<open>The output buffer of \<open>Clean\<close> for a non-empty path, before an empty buffer becomes \<^verbatim>\<open>.\<close>.\<close>

definition clean_buf :: "string \<Rightarrow> string" where
  "clean_buf p =
     fst (if hd p = CHR ''/'' then clean_loop (tl p) True ''/'' 1 else clean_loop p False [] 0)"

text \<open>
  The error that the walk meets at an entry: \<^verbatim>\<open>Lstat\<close> fails on it, or it is a directory
  whose names cannot be read. \<open>first_error\<close> is the first one in a list of entries.
\<close>

fun entry_error :: "fsnode \<Rightarrow> string option" where
  "entry_error (NoStat n e) = Some e"
| "entry_error (NoRead n sz mt e) = Some e"
| "entry_error (File n sz mt) = None"
| "entry_error (Dir n sz mt entries) = None"

fun first_error :: "fsnode list \<Rightarrow> string option" where
  "first_error [] = None"
| "first_error (n # ns) = (case entry_error n of Some e \<Rightarrow> Some e | None \<Rightarrow> first_error ns)"

fun is_file :: "fsnode \<Rightarrow> bool" where
  "is_file (File n sz mt) = True"
| "is_file (Dir n sz mt entries) = False"
| "is_file (NoStat n e) = False"
| "is_file (NoRead n sz mt e) = False"

fun dir_entries :: "fsnode \<Rightarrow> fsnode list" where
  "dir_entries (Dir n sz mt entries) = entries"
| "dir_entries (File n sz mt) = []"
| "dir_entries (NoStat n e) = []"
| "dir_entries (NoRead n sz mt e) = []"

text \<open>
  The entries a run reaches, in the order of the walk: the whole tree in recursive mode, the
  root and its immediate entries otherwise.
\<close>

definition visited :: "Bundler \<Rightarrow> fsnode \<Rightarrow> fsnode list" where
  "visited b fs = (if Recursive b then nodes fs else fs # dir_entries fs)"

text \<open>
  The records of all non-directories of a tree found at \<open>path\<close>, in the order of the walk
  (\<open>tree_files\<close>), and those of the root's immediate entries only (\<open>top_files\<close>).
\<close>

fun tree_files :: "Bundler \<Rightarrow> string \<Rightarrow> fsnode \<Rightarrow> FileBundle list" where
  "tree_files b path (File n sz mt) =
     [fileBundle b path \<lparr>fi_Name = n, fi_Size = sz, fi_ModTime = mt, fi_IsDir = False\<rparr>]"
| "tree_files b path (Dir n sz mt entries) =
     concat (map (\<lambda>entry. tree_files b (Join path (entry_name entry)) entry) entries)"
| "tree_files b path (NoStat n e) = []"
| "tree_files b path (NoRead n sz mt e) = []"

fun top_files :: "Bundler \<Rightarrow> string \<Rightarrow> fsnode \<Rightarrow> FileBundle list" where
  "top_files b path (Dir n sz mt entries) =
     concat (map (\<lambda>entry. tree_files b (Join path (entry_name entry)) entry)
                 (filter is_file entries))"
| "top_files b path (File n sz mt) = tree_files b path (File n sz mt)"
| "top_files b path (NoStat n e) = []"
| "top_files b path (NoRead n sz mt e) = []"

text \<open>The same project with a subdirectory whose names cannot be read.\<close>

definition locked_tree :: fsnode where
  "locked_tree =
     Dir ''proj'' 4096 100
       [File ''a.md'' 10 5,
        NoRead ''private'' 4096 7 ''open proj/private: permission denied'',
        File ''z.BIN'' 7 6]"

text \<open>Path elements joined by the separator, and the buffer of \<open>Clean\<close> that holds them.\<close>

fun join_comps :: "string list \<Rightarrow> string" where
  "join_comps [] = []"
| "join_comps [c] = c"
| "join_comps (c # d # ds) = c @ ''/'' @ join_comps (d # ds)"

definition render :: "bool \<Rightarrow> string list \<Rightarrow> string" where
  "render rooted comps = (if rooted then ''/'' else []) @ join_comps comps"

text \<open>
  The states of the loop of \<open>Clean\<close>: the buffer holds some \<^verbatim>\<open>..\<close> elements, which end at
  index \<open>dotdot\<close>, and then names; a rooted buffer holds no \<^verbatim>\<open>..\<close> element.
\<close>

definition clean_state :: "bool \<Rightarrow> string \<Rightarrow> nat \<Rightarrow> bool" where
  "clean_state rooted out dotdot \<longleftrightarrow>
     (\<exists>k ns. out = render rooted (replicate k ''..'' @ ns)
        \<and> dotdot = length (render rooted (replicate k ''..''))
        \<and> (\<forall>n\<in>set ns. valid_name n) \<and> (rooted \<longrightarrow> k = 0))"

text \<open>A path that \<open>Clean\<close> leaves as it is, other than the root directory.\<close>

definition cleaned :: "string \<Rightarrow> bool" where
  "cleaned p \<longleftrightarrow> p \<noteq> [] \<and> p \<noteq> ''/'' \<and> clean_buf p = p"

text \<open>What \<open>Join r n\<close> puts before the name \<open>n\<close>.\<close>

definition join_prefix :: "string \<Rightarrow> string" where
  "join_prefix r = (if r = [] then [] else add_slash (hd r = CHR ''/'') (clean_buf r))"

text \<open>
  The paths under which the walk meets the nodes of a tree found at \<open>path\<close>, the trees whose
  entries all have names a directory can hold, and the paths of everything located inside the
  subdirectories of the root.
\<close>

fun tree_paths :: "string \<Rightarrow> fsnode \<Rightarrow> string list" where
  "tree_paths path (Dir n sz mt entries) =
     path # concat (map (\<lambda>entry. tree_paths (Join path (entry_name entry)) entry) entries)"
| "tree_paths path (File n sz mt) = [path]"
| "tree_paths path (NoStat n e) = [path]"
| "tree_paths path (NoRead n sz mt e) = [path]"

fun valid_tree :: "fsnode \<Rightarrow> bool" where
  "valid_tree (Dir n sz mt entries) =
     (\<forall>entry\<in>set entries. valid_name (entry_name entry) \<and> valid_tree entry)"
| "valid_tree (File n sz mt) = True"
| "valid_tree (NoStat n e) = True"
| "valid_tree (NoRead n sz mt e) = True"

definition inner_paths :: "string \<Rightarrow> fsnode \<Rightarrow> string list" where
  "inner_paths rootpath fs =
     concat (map (\<lambda>d. concat (map (\<lambda>entry.
                tree_paths (Join (Join rootpath (entry_name d)) (entry_name entry)) entry)
              (dir_entries d)))
          (dir_entries fs))"

text \<open>A directory with two files of \<open>2^62\<close> bytes each (sparse files reach such sizes) and a small one.\<close>

definition huge_tree :: fsnode where
  "huge_tree =
     Dir ''proj'' 4096 100
       [File ''a.img'' 4611686018427387904 5,
        File ''b.img'' 4611686018427387904 6,
        File ''c.txt'' 5 7]"

section \<open>Properties of the classification\<close>

lemma Ext_examples:
  "Ext ''notes.md'' = ''.md''"
  "Ext ''NOTES.MD'' = ''.MD''"
  "Ext ''docs.d/readme'' = ''''"
  "Ext ''archive.tar.gz'' = ''.gz''"
  by (simp_all add: Ext_def)

text \<open>
  C10. Whenever \<open>classifyType\<close> of a path's extension is \<open>binary\<close>, \<open>detectMIME\<close> of the
  path is \<open>application/octet-stream\<close>. The converse fails: the extensions \<open>.js\<close>,
  \<open>.py\<close> and \<open>.yaml\<close> have the categories \<open>code\<close>, \<open>code\<close> and \<open>data\<close>, and
  their MIME type is \<open>application/octet-stream\<close> all the same.
\<close>

theorem binary_category_implies_octet_stream:
  "(classifyType (Ext path) = ''binary'' \<longrightarrow> detectMIME path = ''application/octet-stream'')
   \<and> classifyType (Ext ''app.js'') = ''code'' \<and> detectMIME ''app.js'' = ''application/octet-stream''
   \<and> classifyType (Ext ''run.py'') = ''code'' \<and> detectMIME ''run.py'' = ''application/octet-stream''
   \<and> classifyType (Ext ''ci.yaml'') = ''data'' \<and> detectMIME ''ci.yaml'' = ''application/octet-stream''"
proof -
  have "classifyType (Ext path) = ''binary'' \<longrightarrow> detectMIME path = ''application/octet-stream''"
    by (simp add: classifyType_def detectMIME_def Let_def)
  moreover have "classifyType (Ext ''app.js'') = ''code''"
    and "detectMIME ''app.js'' = ''application/octet-stream''"
    and "classifyType (Ext ''run.py'') = ''code''"
    and "detectMIME ''run.py'' = ''application/octet-stream''"
    and "classifyType (Ext ''ci.yaml'') = ''data''"
    and "detectMIME ''ci.yaml'' = ''application/octet-stream''"
    by (simp_all add: classifyType_def detectMIME_def Ext_def)
  ultimately show ?thesis by blast
qed

theorem binary_category_implies_octet_stream_witness:
  "classifyType (Ext ''blob.bin'') = ''binary'' \<and> detectMIME ''blob.bin'' = ''application/octet-stream''"
  using binary_category_implies_octet_stream [of "''blob.bin''"]
  by (simp add: classifyType_def Ext_def)

text \<open>
  C4 as stated asks for a classification that ignores the case of the extension. The code
  compares the extension byte for byte with lower-case literals: \<open>README.MD\<close> and
  \<open>README.md\<close> get different MIME types and different categories.
\<close>

theorem classification_case_insensitive_counterexample:
  "detectMIME ''README.MD'' \<noteq> detectMIME ''README.md''
   \<and> classifyType (Ext ''README.MD'') \<noteq> classifyType (Ext ''README.md'')"
  by (simp add: detectMIME_def classifyType_def Ext_def)

text \<open>
  C4, amended. Classification is a total function of the file extension alone, with no error
  result, and it compares the extension exactly (case-sensitively) with the lower-case
  extensions of its tables: every extension outside the MIME table, an upper-case spelling such
  as \<open>.MD\<close> included, yields \<open>application/octet-stream\<close>, and every extension outside
  the category table yields \<open>binary\<close>.
\<close>

theorem classification_by_exact_extension:
  "(Ext p = Ext q \<longrightarrow> detectMIME p = detectMIME q)
   \<and> (Ext p \<notin> set [''.md'', ''.txt'', ''.json'', ''.go'', ''.rtf''] \<longrightarrow>
        detectMIME p = ''application/octet-stream'')
   \<and> (ext \<notin> set [''.go'', ''.js'', ''.ts'', ''.py'', ''.cs'', ''.java'',
                    ''.json'', ''.yaml'', ''.yml'', ''.toml'', ''.plist'', ''.csv'',
                    ''.md'', ''.txt'', ''.rtf''] \<longrightarrow>
        classifyType ext = ''binary'')
   \<and> detectMIME p \<in> set [''text/markdown'', ''text/plain'', ''application/json'', ''text/x-go'',
                          ''application/rtf'', ''application/octet-stream'']
   \<and> classifyType ext \<in> set [''code'', ''data'', ''text'', ''binary'']
   \<and> detectMIME ''README.md'' = ''text/markdown'' \<and> classifyType (Ext ''README.md'') = ''text''
   \<and> detectMIME ''README.MD'' = ''application/octet-stream''
   \<and> classifyType (Ext ''README.MD'') = ''binary''"
proof -
  have "Ext p = Ext q \<longrightarrow> detectMIME p = detectMIME q"
    by (simp add: detectMIME_def)
  moreover have "Ext p \<notin> set [''.md'', ''.txt'', ''.json'', ''.go'', ''.rtf''] \<longrightarrow>
      detectMIME p = ''application/octet-stream''"
    by (simp add: detectMIME_def Let_def)
  moreover have "ext \<notin> set [''.go'', ''.js'', ''.ts'', ''.py'', ''.cs'', ''.java'',
                    ''.json'', ''.yaml'', ''.yml'', ''.toml'', ''.plist'', ''.csv'',
                    ''.md'', ''.txt'', ''.rtf''] \<longrightarrow> classifyType ext = ''binary''"
    by (simp add: classifyType_def)
  moreover have "detectMIME p \<in> set [''text/markdown'', ''text/plain'', ''application/json'',
      ''text/x-go'', ''application/rtf'', ''application/octet-stream'']"
    by (simp add: detectMIME_def Let_def)
  moreover have "classifyType ext \<in> set [''code'', ''data'', ''text'', ''binary'']"
    by (simp add: classifyType_def)
  moreover have "detectMIME ''README.md'' = ''text/markdown''"
    and "classifyType (Ext ''README.md'') = ''text''"
    and "detectMIME ''README.MD'' = ''application/octet-stream''"
    and "classifyType (Ext ''README.MD'') = ''binary''"
    by (simp_all add: detectMIME_def classifyType_def Ext_def)
  ultimately show ?thesis by blast
qed

theorem classification_by_exact_extension_witness:
  "Ext ''a/notes.TXT'' = Ext ''b/todo.TXT''
   \<and> detectMIME ''a/notes.TXT'' = detectMIME ''b/todo.TXT''
   \<and> detectMIME ''a/notes.TXT'' = ''application/octet-stream''
   \<and> classifyType ''.TXT'' = ''binary''"
  using classification_by_exact_extension [of "''a/notes.TXT''" "''b/todo.TXT''" "''.TXT''"]
  by (auto simp: Ext_def)

section \<open>Properties of the path functions\<close>

declare clean_loop.simps [simp del]

lemma takeWhile_before_sep:
  "takeWhile not_sep (xs @ CHR ''/'' # ys) = takeWhile not_sep xs"
  by (induction xs) (simp_all add: not_sep_def)

lemma dropWhile_before_sep:
  "dropWhile not_sep (xs @ CHR ''/'' # ys) = dropWhile not_sep xs @ CHR ''/'' # ys"
  by (induction xs) (simp_all add: not_sep_def)

lemma clean_loop_split:
  "clean_loop (xs @ CHR ''/'' # ys) rooted out dotdot =
     (case clean_loop xs rooted out dotdot of (out', dotdot') \<Rightarrow> clean_loop ys rooted out' dotdot')"
proof (induction xs rooted out dotdot rule: clean_loop.induct)
  case (1 rooted out dotdot)
  show ?case by (simp add: clean_loop.simps)
next
  case (2 c cs rooted out dotdot)
  let ?rest = "CHR ''/'' # ys"
  let ?dot = "\<lambda>cs. c = CHR ''.'' \<and> (cs = [] \<or> hd cs = CHR ''/'')"
  let ?dotdot = "\<lambda>cs. c = CHR ''.'' \<and> hd cs = CHR ''.'' \<and> (tl cs = [] \<or> hd (tl cs) = CHR ''/'')"
  have dot: "?dot (cs @ ?rest) \<longleftrightarrow> ?dot cs"
    by (cases cs) simp_all
  have dotdot: "?dotdot (cs @ ?rest) \<longleftrightarrow> ?dotdot cs" if "\<not> ?dot cs"
  proof (cases cs)
    case Nil
    with that show ?thesis by auto
  next
    case (Cons d ds)
    then show ?thesis by (cases ds) auto
  qed
  have tl_app: "tl (cs @ ?rest) = tl cs @ ?rest" if "?dotdot cs" "\<not> ?dot cs"
    using that by (cases cs) auto
  show ?case
  proof (cases "c = CHR ''/''")
    case True
    with "2.IH"(1) show ?thesis
      by (simp add: clean_loop.simps(2) [of "CHR ''/''"])
  next
    case sep: False
    show ?thesis
    proof (cases "?dot cs")
      case True
      with sep "2.IH"(2) dot show ?thesis
        by (simp add: clean_loop.simps(2) [of "CHR ''.''"])
    next
      case nodot: False
      show ?thesis
      proof (cases "?dotdot cs")
        case True
        obtain o1 d1 where step: "dotdot_element rooted out dotdot = (o1, d1)"
          by (cases "dotdot_element rooted out dotdot")
        have "clean_loop ((c # cs) @ ?rest) rooted out dotdot =
            clean_loop (tl cs @ ?rest) rooted o1 d1"
          using sep nodot True dot dotdot [OF nodot] tl_app [OF True nodot] step
          by (simp add: clean_loop.simps(2) [of "CHR ''.''"])
        moreover have "clean_loop (c # cs) rooted out dotdot = clean_loop (tl cs) rooted o1 d1"
          using sep nodot True step
          by (simp add: clean_loop.simps(2) [of "CHR ''.''"])
        ultimately show ?thesis
          using "2.IH"(3) [OF sep nodot True step [symmetric]] by simp
      next
        case real: False
        have "clean_loop (c # (cs @ ?rest)) rooted out dotdot =
            clean_loop (dropWhile not_sep (c # (cs @ ?rest))) rooted
              (add_slash rooted out @ takeWhile not_sep (c # (cs @ ?rest))) dotdot"
          using sep nodot real dot dotdot [OF nodot]
          by (subst clean_loop.simps(2)) (simp only: if_False)
        also have "\<dots> = clean_loop (dropWhile not_sep (c # cs) @ ?rest) rooted
              (add_slash rooted out @ takeWhile not_sep (c # cs)) dotdot"
          using takeWhile_before_sep [of "c # cs" ys] dropWhile_before_sep [of "c # cs" ys]
          by (simp only: append_Cons)
        finally have lhs: "clean_loop ((c # cs) @ ?rest) rooted out dotdot =
            clean_loop (dropWhile not_sep (c # cs) @ ?rest) rooted
              (add_slash rooted out @ takeWhile not_sep (c # cs)) dotdot"
          by (simp only: append_Cons)
        have rhs: "clean_loop (c # cs) rooted out dotdot =
            clean_loop (dropWhile not_sep (c # cs)) rooted
              (add_slash rooted out @ takeWhile not_sep (c # cs)) dotdot"
          using sep nodot real
          by (subst clean_loop.simps(2)) (simp only: if_False)
        show ?thesis
          unfolding lhs rhs using "2.IH"(4) [OF sep nodot real] .
      qed
    qed
  qed
qed

lemma clean_loop_valid_name:
  assumes "valid_name n"
  shows "clean_loop n rooted out dotdot = (add_slash rooted out @ n, dotdot)"
proof -
  from assms obtain c cs where n: "n = c # cs"
    by (cases n) (auto simp: valid_name_def)
  from assms have nosep: "\<forall>x\<in>set n. not_sep x"
    by (auto simp: valid_name_def not_sep_def)
  have sep: "c \<noteq> CHR ''/''"
    using assms n by (auto simp: valid_name_def)
  have nodot: "\<not> (c = CHR ''.'' \<and> (cs = [] \<or> hd cs = CHR ''/''))"
    using assms n by (cases cs) (auto simp: valid_name_def)
  have nodotdot: "\<not> (c = CHR ''.'' \<and> hd cs = CHR ''.'' \<and> (tl cs = [] \<or> hd (tl cs) = CHR ''/''))"
  proof (cases cs)
    case Nil
    with nodot show ?thesis by auto
  next
    case (Cons d ds)
    with assms n show ?thesis by (cases ds) (auto simp: valid_name_def)
  qed
  have "clean_loop (c # cs) rooted out dotdot =
      clean_loop (dropWhile not_sep (c # cs)) rooted
        (add_slash rooted out @ takeWhile not_sep (c # cs)) dotdot"
    using sep nodot nodotdot
    by (subst clean_loop.simps(2)) (simp only: if_False)
  moreover have "takeWhile not_sep n = n" "dropWhile not_sep n = []"
    using nosep by simp_all
  ultimately show ?thesis
    by (simp add: n clean_loop.simps(1))
qed

lemma Clean_clean_buf:
  "p \<noteq> [] \<Longrightarrow> Clean p = (if clean_buf p = [] then ''.'' else clean_buf p)"
  by (simp add: Clean_def clean_buf_def Let_def)

lemma Clean_not_empty: "Clean p \<noteq> []"
  by (simp add: Clean_def Let_def)

lemma clean_buf_join:
  assumes "r \<noteq> []" and "valid_name n"
  shows "clean_buf (r @ ''/'' @ n) = add_slash (hd r = CHR ''/'') (clean_buf r) @ n"
proof (cases "hd r = CHR ''/''")
  case True
  obtain o1 d1 where l: "clean_loop (tl r) True ''/'' 1 = (o1, d1)"
    by (cases "clean_loop (tl r) True ''/'' 1")
  have "tl (r @ ''/'' @ n) = tl r @ CHR ''/'' # n"
    using assms(1) by simp
  then have "clean_loop (tl (r @ ''/'' @ n)) True ''/'' 1 = (add_slash True o1 @ n, d1)"
    using l by (simp add: clean_loop_split clean_loop_valid_name [OF assms(2)])
  with True assms(1) l show ?thesis
    by (simp add: clean_buf_def)
next
  case False
  obtain o1 d1 where l: "clean_loop r False [] 0 = (o1, d1)"
    by (cases "clean_loop r False [] 0")
  have "clean_loop (r @ CHR ''/'' # n) False [] 0 = (add_slash False o1 @ n, d1)"
    using l by (simp add: clean_loop_split clean_loop_valid_name [OF assms(2)])
  with False assms(1) l show ?thesis
    by (simp add: clean_buf_def)
qed

lemma clean_buf_valid_name: "valid_name n \<Longrightarrow> clean_buf n = n"
  by (cases n) (auto simp: clean_buf_def clean_loop_valid_name add_slash_def valid_name_def)

lemma clean_buf_rooted_name: "valid_name n \<Longrightarrow> clean_buf (CHR ''/'' # n) = CHR ''/'' # n"
  by (simp add: clean_buf_def clean_loop_valid_name add_slash_def)

lemma joined_buffer_differs:
  assumes "valid_name n"
  shows "r \<noteq> [] \<Longrightarrow> add_slash (hd r = CHR ''/'') (clean_buf r) @ n \<noteq> r"
proof (induction r rule: length_induct)
  case (1 r)
  let ?B = "clean_buf r"
  from assms have n: "n \<noteq> []" by (simp add: valid_name_def)
  show ?case
  proof
    assume eq: "add_slash (hd r = CHR ''/'') ?B @ n = r"
    show False
    proof (cases "add_slash (hd r = CHR ''/'') ?B = ?B")
      case True
      with eq have r: "r = ?B @ n" by simp
      show False
      proof (cases "hd r = CHR ''/''")
        case rooted: True
        with True have len: "length ?B = 1"
          by (auto simp: add_slash_def split: if_splits)
        then obtain x where B: "?B = [x]"
          by (cases ?B) auto
        with r rooted have "x = CHR ''/''"
          by (metis append_Cons list.sel(1))
        with r B have "r = CHR ''/'' # n" by simp
        then have "?B = CHR ''/'' # n"
          using clean_buf_rooted_name [OF assms] by simp
        with len n show False by simp
      next
        case False
        with True have "?B = []"
          by (auto simp: add_slash_def split: if_splits)
        with r have "r = n" by simp
        with clean_buf_valid_name [OF assms] \<open>?B = []\<close> n show False by simp
      qed
    next
      case False
      then have slash: "add_slash (hd r = CHR ''/'') ?B = ?B @ ''/''"
        by (simp add: add_slash_def split: if_splits)
      with eq have r: "r = ?B @ ''/'' @ n" by simp
      show False
      proof (cases "?B = []")
        case True
        with r have "r = CHR ''/'' # n" by simp
        then have "?B = CHR ''/'' # n"
          using clean_buf_rooted_name [OF assms] by simp
        with True show False by simp
      next
        case nonempty: False
        have hd: "hd ?B = hd r"
          using r nonempty by (metis hd_append2)
        have "?B = clean_buf (?B @ ''/'' @ n)"
          using r by simp
        also have "\<dots> = add_slash (hd ?B = CHR ''/'') (clean_buf ?B) @ n"
          by (rule clean_buf_join [OF nonempty assms])
        finally have "add_slash (hd ?B = CHR ''/'') (clean_buf ?B) @ n = ?B"
          by simp
        moreover have "length ?B < length r"
          using arg_cong [OF r, of length] by simp
        ultimately show False
          using "1.IH" nonempty by blast
      qed
    qed
  qed
qed

lemma Join_differs:
  assumes "valid_name n"
  shows "Join r n \<noteq> r"
proof (cases "r = []")
  case True
  with assms show ?thesis
    by (simp add: Join_def Clean_not_empty valid_name_def)
next
  case False
  have "clean_buf (r @ ''/'' @ n) = add_slash (hd r = CHR ''/'') (clean_buf r) @ n"
    by (rule clean_buf_join [OF False assms])
  moreover from assms have "n \<noteq> []" by (simp add: valid_name_def)
  ultimately have "Clean (r @ ''/'' @ n) = add_slash (hd r = CHR ''/'') (clean_buf r) @ n"
    by (simp add: Clean_clean_buf)
  with joined_buffer_differs [OF assms False] False show ?thesis
    by (simp add: Join_def)
qed

subsection \<open>Clean is idempotent on joined paths\<close>

lemma join_comps_snoc:
  "join_comps (cs @ [n]) = (if cs = [] then n else join_comps cs @ ''/'' @ n)"
  by (induction cs rule: join_comps.induct) simp_all

lemma join_comps_empty:
  "\<forall>c\<in>set cs. c \<noteq> [] \<Longrightarrow> join_comps cs = [] \<longleftrightarrow> cs = []"
  by (induction cs rule: join_comps.induct) simp_all

lemma add_slash_render:
  assumes "\<forall>c\<in>set cs. c \<noteq> []"
  shows "add_slash rooted (render rooted cs) @ n = render rooted (cs @ [n])"
  using join_comps_empty [OF assms]
  by (auto simp: add_slash_def render_def join_comps_snoc)

lemma backtrack_stops:
  assumes "w0 \<le> w" and "dotdot \<le> w0"
    and "\<forall>i. w0 < i \<and> i \<le> w \<longrightarrow> out ! i \<noteq> CHR ''/''"
    and "w0 = dotdot \<or> out ! w0 = CHR ''/''"
  shows "backtrack out dotdot w = w0"
  using assms
proof (induction w)
  case 0
  then show ?case by simp
next
  case (Suc w)
  show ?case
  proof (cases "w0 = Suc w")
    case True
    with Suc.prems show ?thesis by auto
  next
    case False
    with Suc.prems have le: "w0 \<le> w" by simp
    from Suc.prems False have "out ! Suc w \<noteq> CHR ''/''" "Suc w > dotdot"
      by auto
    moreover have "backtrack out dotdot w = w0"
      using Suc.IH [OF le Suc.prems(2) _ Suc.prems(4)] Suc.prems(3) by simp
    ultimately show ?thesis by simp
  qed
qed

lemma backtrack_last_comp:
  assumes n: "n \<noteq> []" "CHR ''/'' \<notin> set n"
    and out: "out = pre @ sep @ n"
    and sep: "sep = ''/'' \<or> (sep = [] \<and> length pre = dotdot)"
    and dd: "dotdot \<le> length pre"
  shows "take (backtrack out dotdot (length out - 1)) out = pre"
proof -
  have "backtrack out dotdot (length out - 1) = length pre"
  proof (rule backtrack_stops)
    show "length pre \<le> length out - 1"
      using n out by (cases n) simp_all
    show "dotdot \<le> length pre" by (rule dd)
    show "\<forall>i. length pre < i \<and> i \<le> length out - 1 \<longrightarrow> out ! i \<noteq> CHR ''/''"
    proof (intro allI impI)
      fix i assume i: "length pre < i \<and> i \<le> length out - 1"
      with sep out n have "i - length (pre @ sep) < length n" "length (pre @ sep) \<le> i"
        by (cases n; auto)+
      then have "out ! i = n ! (i - length (pre @ sep))"
        unfolding out by (metis append.assoc nth_append not_le)
      with \<open>i - length (pre @ sep) < length n\<close> n(2) show "out ! i \<noteq> CHR ''/''"
        by (metis nth_mem)
    qed
    show "length pre = dotdot \<or> out ! length pre = CHR ''/''"
      using sep out by (auto simp: nth_append)
  qed
  then show ?thesis by (simp add: out)
qed

lemma join_comps_append:
  "join_comps (xs @ ys) =
     (if xs = [] then join_comps ys else if ys = [] then join_comps xs
      else join_comps xs @ ''/'' @ join_comps ys)"
proof (induction xs rule: join_comps.induct)
  case 1
  show ?case by simp
next
  case (2 c)
  show ?case by (cases ys) simp_all
next
  case (3 c d ds)
  then show ?case by simp
qed

lemma valid_name_nonempty: "valid_name n \<Longrightarrow> n \<noteq> []"
  by (simp add: valid_name_def)

lemma comps_nonempty:
  assumes "\<forall>n\<in>set ns. valid_name n"
  shows "\<forall>c\<in>set (replicate k ''..'' @ ns). c \<noteq> []"
proof
  fix c assume "c \<in> set (replicate k ''..'' @ ns)"
  then consider "c = ''..''" | "c \<in> set ns"
    by auto
  then show "c \<noteq> []"
  proof cases
    case 1
    then show ?thesis by simp
  next
    case 2
    with assms show ?thesis by (simp add: valid_name_nonempty)
  qed
qed

lemma dotdot_element_clean_state:
  assumes "clean_state rooted out dotdot" and "dotdot_element rooted out dotdot = (out', dotdot')"
  shows "clean_state rooted out' dotdot'"
proof -
  from assms(1) obtain k ns where out: "out = render rooted (replicate k ''..'' @ ns)"
    and dd: "dotdot = length (render rooted (replicate k ''..''))"
    and valid: "\<forall>n\<in>set ns. valid_name n" and k: "rooted \<longrightarrow> k = 0"
    unfolding clean_state_def by blast
  show ?thesis
  proof (cases ns rule: rev_cases)
    case Nil
    with out dd have len: "length out = dotdot" by simp
    show ?thesis
    proof (cases rooted)
      case True
      with assms(2) len have "out' = out" "dotdot' = dotdot"
        by (simp_all add: dotdot_element_def)
      with assms(1) show ?thesis by simp
    next
      case False
      have "replicate (Suc k) ''..'' = replicate k ''..'' @ [''..'']"
        by (simp add: replicate_append_same)
      then have "render False (replicate (Suc k) ''..'') =
          (if length out > 0 then out @ ''/'' else out) @ ''..''"
        using out Nil False join_comps_empty [of "replicate k ''..''"]
        by (auto simp: render_def join_comps_snoc simp del: replicate_Suc)
      moreover from assms(2) len False
      have "out' = (if length out > 0 then out @ ''/'' else out) @ ''..''"
        and "dotdot' = length out'"
        by (auto simp: dotdot_element_def Let_def)
      ultimately have "out' = render False (replicate (Suc k) ''..'' @ [])"
        and "dotdot' = length (render False (replicate (Suc k) ''..''))"
        by simp_all
      with False show ?thesis
        unfolding clean_state_def by (intro exI [of _ "Suc k"] exI [of _ "[]"]) simp
    qed
  next
    case (snoc ms n)
    let ?pre = "render rooted (replicate k ''..'' @ ms)"
    let ?sep = "if replicate k ''..'' @ ms = [] then [] else ''/''"
    from snoc valid have n: "valid_name n" and ms: "\<forall>m\<in>set ms. valid_name m"
      by simp_all
    have out3: "out = ?pre @ ?sep @ n"
      using out snoc join_comps_snoc [of "replicate k ''..'' @ ms" n]
      by (simp add: render_def)
    have ddle: "dotdot \<le> length ?pre"
      by (simp add: dd render_def join_comps_append)
    have sep: "?sep = ''/'' \<or> (?sep = [] \<and> length ?pre = dotdot)"
      by (auto simp: dd)
    have "length out = length ?pre + length ?sep + length n"
      using arg_cong [OF out3, of length] by simp
    moreover have "0 < length n"
      using n by (simp add: valid_name_def)
    ultimately have "length out > dotdot"
      using ddle by linarith
    moreover have "take (backtrack out dotdot (length out - 1)) out = ?pre"
      using n by (intro backtrack_last_comp [OF _ _ out3 sep ddle]) (simp_all add: valid_name_def)
    ultimately have "out' = ?pre" "dotdot' = dotdot"
      using assms(2) by (simp_all add: dotdot_element_def)
    with dd ms k show ?thesis
      unfolding clean_state_def by blast
  qed
qed

lemma real_element_valid:
  assumes "c \<noteq> CHR ''/''"
    and "\<not> (c = CHR ''.'' \<and> (cs = [] \<or> hd cs = CHR ''/''))"
    and "\<not> (c = CHR ''.'' \<and> hd cs = CHR ''.'' \<and> (tl cs = [] \<or> hd (tl cs) = CHR ''/''))"
  shows "valid_name (takeWhile not_sep (c # cs))"
proof -
  let ?e = "takeWhile not_sep (c # cs)"
  have e: "?e = c # takeWhile not_sep cs"
    using assms(1) by (simp add: not_sep_def)
  have nosep: "CHR ''/'' \<notin> set ?e"
    using set_takeWhileD [of "CHR ''/''" not_sep "c # cs"] by (auto simp: not_sep_def)
  have "?e \<noteq> ''.''"
  proof
    assume "?e = ''.''"
    with e have "c = CHR ''.''" "takeWhile not_sep cs = []" by simp_all
    then have "c = CHR ''.'' \<and> (cs = [] \<or> hd cs = CHR ''/'')"
      by (cases cs) (auto simp: not_sep_def split: if_splits)
    with assms(2) show False by simp
  qed
  moreover have "?e \<noteq> ''..''"
  proof
    assume "?e = ''..''"
    with e have c: "c = CHR ''.''" and t: "takeWhile not_sep cs = ''.''" by simp_all
    from t obtain ds where cs: "cs = CHR ''.'' # ds" and "takeWhile not_sep ds = []"
      by (cases cs) (auto simp: not_sep_def split: if_splits)
    then have "tl cs = [] \<or> hd (tl cs) = CHR ''/''"
      by (cases ds) (auto simp: not_sep_def split: if_splits)
    with c cs assms(3) show False by simp
  qed
  ultimately show ?thesis
    using e nosep by (simp add: valid_name_def)
qed

lemma clean_loop_clean_state:
  "clean_state rooted out dotdot \<Longrightarrow> clean_loop p rooted out dotdot = (out', dotdot') \<Longrightarrow>
     clean_state rooted out' dotdot'"
proof (induction p rooted out dotdot rule: clean_loop.induct)
  case (1 rooted out dotdot)
  then show ?case by (simp add: clean_loop.simps)
next
  case (2 c cs rooted out dotdot)
  show ?case
  proof (cases "c = CHR ''/''")
    case True
    with "2.prems" "2.IH"(1) show ?thesis
      by (simp add: clean_loop.simps(2) [of "CHR ''/''"])
  next
    case sep: False
    show ?thesis
    proof (cases "c = CHR ''.'' \<and> (cs = [] \<or> hd cs = CHR ''/'')")
      case True
      with sep "2.prems" "2.IH"(2) show ?thesis
        by (simp add: clean_loop.simps(2) [of "CHR ''.''"])
    next
      case nodot: False
      show ?thesis
      proof (cases "c = CHR ''.'' \<and> hd cs = CHR ''.'' \<and> (tl cs = [] \<or> hd (tl cs) = CHR ''/'')")
        case True
        obtain o1 d1 where step: "dotdot_element rooted out dotdot = (o1, d1)"
          by (cases "dotdot_element rooted out dotdot")
        have "clean_loop (c # cs) rooted out dotdot = clean_loop (tl cs) rooted o1 d1"
          using sep nodot True step by (simp add: clean_loop.simps(2) [of "CHR ''.''"])
        with "2.prems"(2) have "clean_loop (tl cs) rooted o1 d1 = (out', dotdot')"
          by simp
        with "2.IH"(3) [OF sep nodot True step [symmetric]]
          dotdot_element_clean_state [OF "2.prems"(1) step]
        show ?thesis by simp
      next
        case real: False
        let ?e = "takeWhile not_sep (c # cs)"
        have "clean_loop (c # cs) rooted out dotdot =
            clean_loop (dropWhile not_sep (c # cs)) rooted (add_slash rooted out @ ?e) dotdot"
          using sep nodot real
          by (subst clean_loop.simps(2)) (simp only: if_False)
        with "2.prems"(2) have run: "clean_loop (dropWhile not_sep (c # cs)) rooted
            (add_slash rooted out @ ?e) dotdot = (out', dotdot')"
          by simp
        from "2.prems"(1) obtain k ns where out: "out = render rooted (replicate k ''..'' @ ns)"
          and dd: "dotdot = length (render rooted (replicate k ''..''))"
          and valid: "\<forall>n\<in>set ns. valid_name n" and k: "rooted \<longrightarrow> k = 0"
          unfolding clean_state_def by blast
        have e: "valid_name ?e"
          by (rule real_element_valid [OF sep nodot real])
        have "add_slash rooted out @ ?e = render rooted (replicate k ''..'' @ (ns @ [?e]))"
          using add_slash_render [OF comps_nonempty [OF valid], of rooted k ?e] out
          by simp
        with dd valid e k have "clean_state rooted (add_slash rooted out @ ?e) dotdot"
          unfolding clean_state_def
          by (intro exI [of _ k] exI [of _ "ns @ [?e]"]) simp
        from "2.IH"(4) [OF sep nodot real this run] show ?thesis .
      qed
    qed
  qed
qed

lemma clean_loop_names:
  assumes "\<forall>n\<in>set ns. valid_name n" and "\<forall>c\<in>set pre. c \<noteq> []"
  shows "clean_loop (join_comps ns) rooted (render rooted pre) dotdot
           = (render rooted (pre @ ns), dotdot)"
  using assms
proof (induction ns arbitrary: pre rule: join_comps.induct)
  case 1
  show ?case by (simp add: clean_loop.simps)
next
  case (2 n)
  then show ?case
    by (simp add: clean_loop_valid_name add_slash_render)
next
  case (3 n m ms)
  from "3.prems" have n: "valid_name n" and rest: "\<forall>x\<in>set (m # ms). valid_name x"
    by simp_all
  have pre': "\<forall>c\<in>set (pre @ [n]). c \<noteq> []"
    using "3.prems"(2) n by (auto simp: valid_name_nonempty)
  have "clean_loop (join_comps (n # m # ms)) rooted (render rooted pre) dotdot
      = clean_loop (join_comps (m # ms)) rooted (render rooted (pre @ [n])) dotdot"
    using clean_loop_split [of n "join_comps (m # ms)" rooted "render rooted pre" dotdot]
    by (simp add: clean_loop_valid_name [OF n] add_slash_render [OF "3.prems"(2)])
  also have "\<dots> = (render rooted ((pre @ [n]) @ m # ms), dotdot)"
    by (rule "3.IH" [OF rest pre'])
  finally show ?case by simp
qed

lemma clean_loop_dotdot_only:
  "clean_loop ''..'' rooted out dotdot = dotdot_element rooted out dotdot"
  by (simp add: clean_loop.simps split: prod.splits)

lemma dotdot_element_at_limit:
  "dotdot_element False (render False (replicate j ''..'')) (length (render False (replicate j ''..'')))
     = (render False (replicate (Suc j) ''..''), length (render False (replicate (Suc j) ''..'')))"
proof -
  let ?out = "render False (replicate j ''..'')"
  have "replicate (Suc j) ''..'' = replicate j ''..'' @ [''..'']"
    by (simp add: replicate_append_same)
  then have "render False (replicate (Suc j) ''..'') =
      (if length ?out > 0 then ?out @ ''/'' else ?out) @ ''..''"
    using join_comps_empty [of "replicate j ''..''"]
    by (auto simp: render_def join_comps_snoc simp del: replicate_Suc)
  then show ?thesis
    by (simp add: dotdot_element_def Let_def del: replicate_Suc)
qed

lemma clean_loop_dotdots:
  assumes "\<forall>n\<in>set ns. valid_name n"
  shows "clean_loop (join_comps (replicate k ''..'' @ ns)) False
           (render False (replicate j ''..'')) (length (render False (replicate j ''..'')))
         = (render False (replicate (j + k) ''..'' @ ns),
            length (render False (replicate (j + k) ''..'')))"
proof (induction k arbitrary: j)
  case 0
  have "\<forall>c\<in>set (replicate j ''..''). c \<noteq> []" by simp
  from clean_loop_names [OF assms this] show ?case by simp
next
  case (Suc k)
  let ?rest = "replicate k ''..'' @ ns"
  let ?out = "render False (replicate j ''..'')"
  show ?case
  proof (cases "?rest = []")
    case True
    then have k0: "k = 0" "ns = []" by simp_all
    then have "join_comps (replicate (Suc k) ''..'' @ ns) = ''..''"
      by simp
    then show ?thesis
      using dotdot_element_at_limit [of j] k0
      by (simp add: clean_loop_dotdot_only del: replicate_Suc)
  next
    case False
    then obtain d ds where rest: "?rest = d # ds" by (cases ?rest) auto
    have "join_comps (replicate (Suc k) ''..'' @ ns) = ''..'' @ CHR ''/'' # join_comps ?rest"
      using rest by simp
    then have "clean_loop (join_comps (replicate (Suc k) ''..'' @ ns)) False ?out (length ?out)
        = clean_loop (join_comps ?rest) False (render False (replicate (Suc j) ''..''))
            (length (render False (replicate (Suc j) ''..'')))"
      using clean_loop_split [of "''..''" "join_comps ?rest" False ?out "length ?out"]
        dotdot_element_at_limit [of j]
      by (simp add: clean_loop_dotdot_only del: replicate_Suc)
    also have "\<dots> = (render False (replicate (Suc j + k) ''..'' @ ns),
        length (render False (replicate (Suc j + k) ''..'')))"
      by (rule Suc.IH)
    finally show ?thesis by simp
  qed
qed

lemma hd_join_comps: "c \<noteq> [] \<Longrightarrow> hd (join_comps (c # cs)) = hd c"
  by (cases cs) simp_all

lemma clean_buf_render:
  assumes valid: "\<forall>n\<in>set ns. valid_name n" and k: "rooted \<longrightarrow> k = 0"
    and B: "B = render rooted (replicate k ''..'' @ ns)" and nonempty: "B \<noteq> []"
  shows "clean_buf B = B" and "hd B = CHR ''/'' \<longleftrightarrow> rooted"
proof -
  have "clean_buf B = B \<and> (hd B = CHR ''/'' \<longleftrightarrow> rooted)"
  proof (cases rooted)
    case True
    with k B have B': "B = CHR ''/'' # join_comps ns"
      by (simp add: render_def)
    have "clean_loop (join_comps ns) True (render True []) 1 = (render True ([] @ ns), 1)"
      by (rule clean_loop_names [OF valid]) simp
    with B' True show ?thesis
      by (simp add: clean_buf_def render_def)
  next
    case False
    with B have B': "B = join_comps (replicate k ''..'' @ ns)"
      by (simp add: render_def)
    with nonempty obtain c cs where cs: "replicate k ''..'' @ ns = c # cs"
      by (cases "replicate k ''..'' @ ns") auto
    then have "c \<in> set (replicate k ''..'' @ ns)" by simp
    then consider "c = ''..''" | "c \<in> set ns" by auto
    then have c: "c \<noteq> [] \<and> hd c \<noteq> CHR ''/''"
    proof cases
      case 1
      then show ?thesis by simp
    next
      case 2
      with valid have "valid_name c" by simp
      then show ?thesis by (cases c) (auto simp: valid_name_def)
    qed
    then have hd: "hd B \<noteq> CHR ''/''"
      using B' cs by (simp add: hd_join_comps)
    have "clean_loop B False [] 0 = (B, length (render False (replicate k ''..'')))"
      using clean_loop_dotdots [OF valid, of k 0] B' by (simp add: render_def)
    with hd False show ?thesis
      by (simp add: clean_buf_def)
  qed
  then show "clean_buf B = B" and "hd B = CHR ''/'' \<longleftrightarrow> rooted"
    by simp_all
qed

lemma clean_buf_clean:
  assumes "clean_buf r \<noteq> []"
  shows "clean_buf (clean_buf r) = clean_buf r"
    and "hd (clean_buf r) = CHR ''/'' \<longleftrightarrow> hd r = CHR ''/''"
proof -
  let ?rooted = "hd r = CHR ''/''"
  obtain out dd where run:
    "(if ?rooted then clean_loop (tl r) True ''/'' 1 else clean_loop r False [] 0) = (out, dd)"
    by (cases "if ?rooted then clean_loop (tl r) True ''/'' 1 else clean_loop r False [] 0")
  then have B: "clean_buf r = out"
    by (simp add: clean_buf_def)
  have init: "clean_state ?rooted (if ?rooted then ''/'' else []) (if ?rooted then 1 else 0)"
    unfolding clean_state_def
    by (intro exI [of _ 0] exI [of _ "[]"]) (simp add: render_def)
  have "clean_state ?rooted out dd"
  proof (cases ?rooted)
    case True
    with run init clean_loop_clean_state [of True "''/''" 1 "tl r" out dd] show ?thesis
      by simp
  next
    case False
    with run init clean_loop_clean_state [of False "[]" 0 r out dd] show ?thesis
      by simp
  qed
  then obtain k ns where out: "out = render ?rooted (replicate k ''..'' @ ns)"
    and valid: "\<forall>n\<in>set ns. valid_name n" and k: "?rooted \<longrightarrow> k = 0"
    unfolding clean_state_def by blast
  from assms B have "out \<noteq> []" by simp
  from clean_buf_render [OF valid k out this] B
  show "clean_buf (clean_buf r) = clean_buf r"
    and "hd (clean_buf r) = CHR ''/'' \<longleftrightarrow> hd r = CHR ''/''"
    by simp_all
qed

lemma Join_prefix:
  assumes "valid_name n"
  shows "Join r n = join_prefix r @ n"
proof (cases "r = []")
  case True
  with assms show ?thesis
    by (simp add: Join_def join_prefix_def Clean_clean_buf clean_buf_valid_name valid_name_def)
next
  case False
  have "clean_buf (r @ ''/'' @ n) = add_slash (hd r = CHR ''/'') (clean_buf r) @ n"
    by (rule clean_buf_join [OF False assms])
  moreover from assms have "n \<noteq> []" by (simp add: valid_name_def)
  ultimately show ?thesis
    using False by (simp add: Join_def join_prefix_def Clean_clean_buf)
qed

lemma Join_cleaned:
  assumes "valid_name n"
  shows "cleaned (Join r n)"
proof -
  from assms have n: "n \<noteq> []" "CHR ''/'' \<notin> set n"
    by (simp_all add: valid_name_def)
  have P: "Join r n = join_prefix r @ n"
    by (rule Join_prefix [OF assms])
  have "Join r n \<noteq> []"
    using P n by simp
  moreover have "Join r n \<noteq> ''/''"
  proof
    assume "Join r n = ''/''"
    with P n have "n = ''/''"
      by (cases "join_prefix r") (auto simp: Cons_eq_append_conv)
    with n show False by simp
  qed
  moreover have "clean_buf (Join r n) = Join r n"
  proof (cases "r = []")
    case True
    with P assms show ?thesis
      by (simp add: join_prefix_def clean_buf_valid_name)
  next
    case False
    let ?B = "clean_buf r"
    let ?rooted = "hd r = CHR ''/''"
    from P False have P': "Join r n = add_slash ?rooted ?B @ n"
      by (simp add: join_prefix_def)
    show ?thesis
    proof (cases "?B = []")
      case True
      then have "add_slash ?rooted ?B = [] \<or> add_slash ?rooted ?B = ''/''"
        by (simp add: add_slash_def)
      with P' assms show ?thesis
        by (auto simp: clean_buf_valid_name clean_buf_rooted_name)
    next
      case nonempty: False
      note idem = clean_buf_clean [OF nonempty]
      show ?thesis
      proof (cases "add_slash ?rooted ?B = ?B")
        case True
        with nonempty have "?rooted \<and> length ?B = 1"
          by (auto simp: add_slash_def split: if_splits)
        with idem(2) have "?B = ''/''"
          by (cases ?B) auto
        with P' True assms show ?thesis
          by (simp add: clean_buf_rooted_name)
      next
        case False
        then have slash: "add_slash ?rooted ?B = ?B @ ''/''"
          by (simp add: add_slash_def split: if_splits)
        have "clean_buf (?B @ ''/'' @ n) = add_slash (hd ?B = CHR ''/'') (clean_buf ?B) @ n"
          by (rule clean_buf_join [OF nonempty assms])
        with idem slash P' show ?thesis by simp
      qed
    qed
  qed
  ultimately show ?thesis by (simp add: cleaned_def)
qed

lemma Join_cleaned_append:
  assumes "cleaned p" and "valid_name n"
  shows "Join p n = p @ ''/'' @ n"
proof -
  from assms(1) have p: "p \<noteq> []" "p \<noteq> ''/''" "clean_buf p = p"
    by (simp_all add: cleaned_def)
  have "add_slash (hd p = CHR ''/'') p = p @ ''/''"
  proof (cases "hd p = CHR ''/''")
    case True
    with p have "length p \<noteq> 1"
      by (cases p) auto
    with True show ?thesis by (simp add: add_slash_def)
  next
    case False
    with p show ?thesis by (simp add: add_slash_def)
  qed
  with Join_prefix [OF assms(2), of p] p show ?thesis
    by (simp add: join_prefix_def)
qed

section \<open>Properties of the walk\<close>

declare walk.simps [simp del]

lemma self_in_nodes: "node \<in> set (nodes node)"
  by (cases node) simp_all

lemma nodes_of_entry:
  "readDirNames node = Inr names \<Longrightarrow> entry \<in> set names \<Longrightarrow> n \<in> set (nodes entry) \<Longrightarrow> n \<in> set (nodes node)"
  by (cases node) auto

lemma produced_entry:
  "readDirNames node = Inr names \<Longrightarrow> entry \<in> set names \<Longrightarrow> produced b entry f \<Longrightarrow> produced b node f"
  unfolding produced_def by (blast intro: nodes_of_entry)

lemma walkFn_cases:
  "walkFn b path (Some info) None files =
     (if fi_IsDir info then
        (if \<not> Recursive b \<and> path \<noteq> RootPath b then (Some SkipDir, files) else (None, files))
      else (None, files @ [fileBundle b path info]))"
  "walkFn b path oinfo (Some e) files = (Some e, files)"
  by (simp_all add: walkFn_def)

lemma walk_appends:
  "fn = walkFn b \<Longrightarrow> walk fn path info node files = (err, files') \<Longrightarrow> lstat node = Inr info \<Longrightarrow>
     \<exists>new. files' = files @ new \<and> (\<forall>f\<in>set new. produced b node f)"
  "fn = walkFn b \<Longrightarrow> walk_names fn path names files = (err, files') \<Longrightarrow>
     \<exists>new. files' = files @ new \<and> (\<forall>f\<in>set new. \<exists>entry\<in>set names. produced b entry f)"
proof (induction fn path info node files and fn path names files
       arbitrary: err files' and err files' rule: walk_walk_names.induct)
  case (1 fn path info node s)
  show ?case
  proof (cases "fi_IsDir info")
    case False
    with "1.prems" have "files' = s @ [fileBundle b path info]"
      by (simp add: walk.simps [of _ path info node s] walkFn_cases)
    moreover have "produced b node (fileBundle b path info)"
      unfolding produced_def using False "1.prems"(3) self_in_nodes by blast
    ultimately show ?thesis by simp
  next
    case True
    show ?thesis
    proof (cases "readDirNames node")
      case (Inl e)
      with True "1.prems" have "files' = s"
        by (simp add: walk.simps [of _ path info node s] walkFn_cases)
      then show ?thesis by simp
    next
      case (Inr names)
      show ?thesis
      proof (cases "\<not> Recursive b \<and> path \<noteq> RootPath b")
        case True
        with \<open>fi_IsDir info\<close> Inr "1.prems" have "files' = s"
          by (simp add: walk.simps [of _ path info node s] walkFn_cases)
        then show ?thesis by simp
      next
        case False
        with \<open>fi_IsDir info\<close> Inr "1.prems"
        have w: "walkFn b path (Some info) None s = (None, s)"
          and r: "walk_names fn path names s = (err, files')"
          by (auto simp add: walk.simps [of _ path info node s] walkFn_cases)
        from "1.IH" [OF _ Inr _ _ "1.prems"(1) r] \<open>fi_IsDir info\<close> w "1.prems"(1)
        obtain new where "files' = s @ new"
          and "\<forall>f\<in>set new. \<exists>entry\<in>set names. produced b entry f"
          by auto
        then show ?thesis
          using produced_entry [OF Inr] by blast
      qed
    qed
  qed
next
  case (2 fn path s)
  then show ?case by simp
next
  case (3 fn path entry names s)
  let ?filename = "Join path (entry_name entry)"
  show ?case
  proof (cases "lstat entry")
    case (Inl e)
    with "3.prems" show ?thesis
      by (simp add: walkFn_cases)
  next
    case (Inr fileInfo)
    obtain e1 s1 where w: "walk fn ?filename fileInfo entry s = (e1, s1)"
      by (cases "walk fn ?filename fileInfo entry s")
    from "3.IH"(2) [OF refl Inr "3.prems"(1) w Inr]
    obtain new1 where n1: "s1 = s @ new1" "\<forall>f\<in>set new1. produced b entry f"
      by blast
    show ?thesis
    proof (cases "e1 \<noteq> None \<and> (\<not> fi_IsDir fileInfo \<or> e1 \<noteq> Some SkipDir)")
      case True
      with "3.prems" Inr w have "files' = s1"
        by simp
      with n1 show ?thesis by auto
    next
      case False
      with "3.prems" Inr w have r: "walk_names fn path names s1 = (err, files')"
        by auto
      from "3.IH"(3) [OF refl Inr w [symmetric] False "3.prems"(1) r]
      obtain new2 where "files' = s1 @ new2"
        and "\<forall>f\<in>set new2. \<exists>entry\<in>set names. produced b entry f"
        by blast
      with n1 have "files' = s @ (new1 @ new2)"
        and "\<forall>f\<in>set (new1 @ new2). \<exists>e\<in>set (entry # names). produced b e f"
        by auto
      then show ?thesis by blast
    qed
  qed
qed

lemma Walk_produced:
  assumes "Walk (RootPath b) fs (walkFn b) [] = (err, files)"
  shows "\<forall>f\<in>set files. produced b fs f"
proof (cases "lstat fs")
  case (Inl e)
  with assms have "files = []"
    by (auto simp: Walk_def walkFn_cases split: if_splits)
  then show ?thesis by simp
next
  case (Inr info)
  obtain e1 s1 where w: "walk (walkFn b) (RootPath b) info fs [] = (e1, s1)"
    by (cases "walk (walkFn b) (RootPath b) info fs []")
  with assms Inr have "files = s1"
    by (auto simp: Walk_def split: if_splits)
  with walk_appends(1) [OF refl w Inr] show ?thesis by auto
qed

lemma first_error_append:
  "first_error (xs @ ys) = (case first_error xs of Some e \<Rightarrow> Some e | None \<Rightarrow> first_error ys)"
  by (induction xs) (simp_all split: option.splits)

lemma first_error_None: "first_error ns = None \<longleftrightarrow> (\<forall>n\<in>set ns. entry_error n = None)"
  by (induction ns) (auto split: option.splits)

lemma lstat_Inl: "lstat node = Inl e \<longleftrightarrow> (\<exists>n. node = NoStat n e)"
  by (cases node) auto

lemma walk_recursive:
  "fn = walkFn b \<Longrightarrow> Recursive b \<Longrightarrow> lstat node = Inr info \<Longrightarrow>
   walk fn path info node files = (err, files') \<Longrightarrow>
     err = map_option PathError (first_error (nodes node))
     \<and> (err = None \<longrightarrow> files' = files @ tree_files b path node)"
  "fn = walkFn b \<Longrightarrow> Recursive b \<Longrightarrow>
   walk_names fn path names files = (err, files') \<Longrightarrow>
     err = map_option PathError (first_error (concat (map nodes names)))
     \<and> (err = None \<longrightarrow>
          files' = files @ concat (map (\<lambda>entry. tree_files b (Join path (entry_name entry)) entry) names))"
proof (induction fn path info node files and fn path names files
       arbitrary: err files' and err files' rule: walk_walk_names.induct)
  case (1 fn path info node s)
  show ?case
  proof (cases node)
    case (NoStat n e)
    with "1.prems" show ?thesis by simp
  next
    case (File n sz mt)
    with "1.prems" show ?thesis
      by (auto simp: walk.simps walkFn_cases)
  next
    case (NoRead n sz mt e)
    with "1.prems" show ?thesis
      by (auto simp: walk.simps walkFn_cases)
  next
    case (Dir n sz mt entries)
    with "1.prems" have dir: "fi_IsDir info" and rd: "readDirNames node = Inr entries"
      by auto
    from "1.prems" dir have w: "walkFn b path (Some info) None s = (None, s)"
      by (simp add: walkFn_cases)
    with "1.prems" dir rd have r: "walk_names fn path entries s = (err, files')"
      by (simp add: walk.simps)
    from "1.IH" [OF _ rd _ _ "1.prems"(1,2) r] dir w "1.prems"(1)
    have "err = map_option PathError (first_error (concat (map nodes entries)))
          \<and> (err = None \<longrightarrow> files' = s @ concat (map (\<lambda>entry. tree_files b (Join path (entry_name entry)) entry) entries))"
      by simp
    with Dir show ?thesis by simp
  qed
next
  case (2 fn path s)
  then show ?case by simp
next
  case (3 fn path entry names s)
  let ?filename = "Join path (entry_name entry)"
  show ?case
  proof (cases "lstat entry")
    case (Inl e)
    then obtain n where "entry = NoStat n e" by (auto simp: lstat_Inl)
    with "3.prems" show ?thesis
      by (auto simp: walkFn_cases)
  next
    case (Inr fileInfo)
    obtain e1 s1 where w: "walk fn ?filename fileInfo entry s = (e1, s1)"
      by (cases "walk fn ?filename fileInfo entry s")
    from "3.IH"(2) [OF refl Inr "3.prems"(1,2) Inr w]
    have e1: "e1 = map_option PathError (first_error (nodes entry))"
      and s1: "e1 = None \<longrightarrow> s1 = s @ tree_files b ?filename entry"
      by simp_all
    show ?thesis
    proof (cases "first_error (nodes entry)")
      case None
      with e1 have "e1 = None" by simp
      with "3.prems" Inr w have r: "walk_names fn path names s1 = (err, files')"
        by simp
      from "3.IH"(3) [OF refl Inr w [symmetric] _ "3.prems"(1,2) r] \<open>e1 = None\<close>
      have "err = map_option PathError (first_error (concat (map nodes names)))"
        and "err = None \<longrightarrow> files' = s1 @ concat (map (\<lambda>entry. tree_files b (Join path (entry_name entry)) entry) names)"
        by simp_all
      with None s1 \<open>e1 = None\<close> show ?thesis
        by (simp add: first_error_append)
    next
      case (Some m)
      with e1 have "e1 = Some (PathError m)" by simp
      with "3.prems" Inr w have "err = Some (PathError m)"
        by simp
      with Some show ?thesis
        by (simp add: first_error_append)
    qed
  qed
qed


lemma walk_names_flat:
  "\<not> Recursive b \<Longrightarrow> \<forall>entry\<in>set names. valid_name (entry_name entry) \<Longrightarrow>
   walk_names (walkFn b) (RootPath b) names files = (err, files') \<Longrightarrow>
     err = map_option PathError (first_error names)
     \<and> (err = None \<longrightarrow>
          files' = files @ concat (map (\<lambda>entry. tree_files b (Join (RootPath b) (entry_name entry)) entry)
                                       (filter is_file names)))"
proof (induction names arbitrary: files)
  case Nil
  then show ?case by simp
next
  case (Cons entry names)
  let ?filename = "Join (RootPath b) (entry_name entry)"
  from Cons.prems(2) have differs: "?filename \<noteq> RootPath b"
    by (simp add: Join_differs)
  from Cons.prems(2) have valid: "\<forall>entry\<in>set names. valid_name (entry_name entry)"
    by simp
  show ?case
  proof (cases entry)
    case (NoStat n e)
    with Cons.prems(3) show ?thesis
      by (auto simp: walkFn_cases)
  next
    case (File n sz mt)
    with Cons.prems(3) have "walk_names (walkFn b) (RootPath b) names
        (files @ tree_files b ?filename entry) = (err, files')"
      by (simp add: walk.simps walkFn_cases)
    from Cons.IH [OF Cons.prems(1) valid this] File show ?thesis
      by simp
  next
    case (Dir n sz mt entries)
    with Cons.prems(1,3) differs
    have "walk_names (walkFn b) (RootPath b) names files = (err, files')"
      by (simp add: walk.simps walkFn_cases)
    from Cons.IH [OF Cons.prems(1) valid this] Dir show ?thesis
      by simp
  next
    case (NoRead n sz mt e)
    with Cons.prems(3) show ?thesis
      by (auto simp: walk.simps walkFn_cases)
  qed
qed

lemma Walk_result:
  assumes valid: "Recursive b \<or> (\<forall>entry\<in>set (dir_entries fs). valid_name (entry_name entry))"
    and run: "Walk (RootPath b) fs (walkFn b) [] = (err, files)"
  shows "err = map_option PathError (first_error (visited b fs))"
    and "err = None \<Longrightarrow>
           files = (if Recursive b then tree_files b (RootPath b) fs
                    else top_files b (RootPath b) fs)"
proof -
  have "err = map_option PathError (first_error (visited b fs))
        \<and> (err = None \<longrightarrow> files = (if Recursive b then tree_files b (RootPath b) fs
                                      else top_files b (RootPath b) fs))"
  proof (cases "Recursive b")
    case True
    show ?thesis
    proof (cases "lstat fs")
      case (Inl e)
      then obtain n where "fs = NoStat n e" by (auto simp: lstat_Inl)
      with run True show ?thesis
        by (auto simp: Walk_def walkFn_cases visited_def)
    next
      case (Inr info)
      obtain e1 s1 where w: "walk (walkFn b) (RootPath b) info fs [] = (e1, s1)"
        by (cases "walk (walkFn b) (RootPath b) info fs []")
      from walk_recursive(1) [OF refl True Inr w]
      have e1: "e1 = map_option PathError (first_error (nodes fs))"
        and s1: "e1 = None \<longrightarrow> s1 = tree_files b (RootPath b) fs"
        by simp_all
      from e1 have "e1 \<noteq> Some SkipDir" "e1 \<noteq> Some SkipAll"
        by auto
      with run Inr w have "err = e1" "files = s1"
        by (simp_all add: Walk_def)
      with e1 s1 True show ?thesis
        by (simp add: visited_def)
    qed
  next
    case False
    show ?thesis
    proof (cases fs)
      case (NoStat n e)
      with run False show ?thesis
        by (auto simp: Walk_def walkFn_cases visited_def)
    next
      case (File n sz mt)
      with run False show ?thesis
        by (auto simp: Walk_def walk.simps walkFn_cases visited_def)
    next
      case (NoRead n sz mt e)
      with run False show ?thesis
        by (auto simp: Walk_def walk.simps walkFn_cases visited_def)
    next
      case (Dir n sz mt entries)
      obtain e1 s1 where w: "walk_names (walkFn b) (RootPath b) entries [] = (e1, s1)"
        by (cases "walk_names (walkFn b) (RootPath b) entries []")
      from valid False Dir have "\<forall>entry\<in>set entries. valid_name (entry_name entry)"
        by simp
      from walk_names_flat [OF False this w]
      have e1: "e1 = map_option PathError (first_error entries)"
        and s1: "e1 = None \<longrightarrow> s1 = top_files b (RootPath b) fs"
        using Dir by simp_all
      from e1 have "e1 \<noteq> Some SkipDir" "e1 \<noteq> Some SkipAll"
        by auto
      with run Dir w have "err = e1" "files = s1"
        by (simp_all add: Walk_def walk.simps walkFn_cases)
      with e1 s1 False Dir show ?thesis
        by (simp add: visited_def)
    qed
  qed
  then show "err = map_option PathError (first_error (visited b fs))"
    and "err = None \<Longrightarrow>
           files = (if Recursive b then tree_files b (RootPath b) fs
                    else top_files b (RootPath b) fs)"
    by simp_all
qed

section \<open>Properties of BuildBundle\<close>

lemma BuildBundle_Inr:
  assumes "BuildBundle b fs now = Inr bundle"
  shows "Walk (RootPath b) fs (walkFn b) [] = (None, Files bundle)"
    and "Summary bundle =
           Some \<lparr>TotalFiles = int (length (Files bundle)),
                 TotalTokens = 0,
                 TotalSize = foldl (\<lambda>total f. total + SizeBytes f) 0 (Files bundle),
                 AvgTokens = 0,
                 LargestFile = [],
                 LargestTokens = 0,
                 EstimatedModel = []\<rparr>"
    and "SourceDir bundle = RootPath b" and "BundleCreatedAt bundle = now"
  using assms
  by (auto simp: BuildBundle_def Let_def split: prod.splits option.splits)

lemma BuildBundle_produced:
  "BuildBundle b fs now = Inr bundle \<Longrightarrow> f \<in> set (Files bundle) \<Longrightarrow> produced b fs f"
  using Walk_produced BuildBundle_Inr(1) by blast

lemma BuildBundle_fails:
  assumes "Recursive b \<or> (\<forall>entry\<in>set (dir_entries fs). valid_name (entry_name entry))"
    and "first_error (visited b fs) = Some m"
  shows "BuildBundle b fs now = Inl (PathError m)"
proof -
  obtain err files where run: "Walk (RootPath b) fs (walkFn b) [] = (err, files)"
    by (cases "Walk (RootPath b) fs (walkFn b) []")
  from Walk_result(1) [OF assms(1) run] assms(2) have "err = Some (PathError m)"
    by simp
  with run show ?thesis
    by (simp add: BuildBundle_def)
qed

lemma BuildBundle_succeeds:
  assumes "Recursive b \<or> (\<forall>entry\<in>set (dir_entries fs). valid_name (entry_name entry))"
    and "first_error (visited b fs) = None"
  shows "\<exists>bundle. BuildBundle b fs now = Inr bundle"
proof -
  obtain err files where run: "Walk (RootPath b) fs (walkFn b) [] = (err, files)"
    by (cases "Walk (RootPath b) fs (walkFn b) []")
  from Walk_result(1) [OF assms(1) run] assms(2) have "err = None"
    by simp
  with run show ?thesis
    by (simp add: BuildBundle_def Let_def)
qed

lemma BuildBundle_files:
  assumes "Recursive b \<or> (\<forall>entry\<in>set (dir_entries fs). valid_name (entry_name entry))"
    and "BuildBundle b fs now = Inr bundle"
  shows "Files bundle = (if Recursive b then tree_files b (RootPath b) fs
                         else top_files b (RootPath b) fs)"
  using Walk_result(2) [OF assms(1) BuildBundle_Inr(1) [OF assms(2)]] by simp

lemma tree_paths_extend:
  "cleaned q \<Longrightarrow> valid_tree node \<Longrightarrow> p \<in> set (tree_paths q node) \<Longrightarrow>
     p = q \<or> (\<exists>s. p = q @ ''/'' @ s)"
proof (induction node arbitrary: q p)
  case (Dir n sz mt entries)
  show ?case
  proof (cases "p = q")
    case True
    then show ?thesis by simp
  next
    case False
    with Dir.prems(3) obtain entry where entry: "entry \<in> set entries"
      and p: "p \<in> set (tree_paths (Join q (entry_name entry)) entry)"
      by auto
    from Dir.prems(2) entry have valid: "valid_name (entry_name entry)" "valid_tree entry"
      by simp_all
    have j: "Join q (entry_name entry) = q @ ''/'' @ entry_name entry"
      by (rule Join_cleaned_append [OF Dir.prems(1) valid(1)])
    from Dir.IH [OF entry Join_cleaned [OF valid(1)] valid(2) p]
    have "p = Join q (entry_name entry) \<or> (\<exists>s. p = Join q (entry_name entry) @ ''/'' @ s)" .
    with j show ?thesis by auto
  qed
qed simp_all

lemma Path_top_files:
  "map Path (top_files b path (Dir n sz mt entries))
     = map (\<lambda>entry. Join path (entry_name entry)) (filter is_file entries)"
proof (induction entries)
  case Nil
  show ?case by simp
next
  case (Cons entry entries)
  then show ?case
    by (cases entry) (simp_all add: fileBundle_def Let_def)
qed

lemma inner_paths_absent:
  assumes "valid_tree fs" and "p \<in> set (inner_paths r fs)"
  shows "p \<notin> set (map Path (top_files b r fs))"
proof (cases fs)
  case (Dir n sz mt entries)
  from assms(2) Dir obtain d entry where d: "d \<in> set entries"
    and entry: "entry \<in> set (dir_entries d)"
    and p: "p \<in> set (tree_paths (Join (Join r (entry_name d)) (entry_name entry)) entry)"
    by (auto simp: inner_paths_def)
  from assms(1) Dir d have vd: "valid_name (entry_name d)" "valid_tree d"
    by simp_all
  from entry vd(2) have ve: "valid_name (entry_name entry)" "valid_tree entry"
    by (cases d; simp)+
  let ?P1 = "Join r (entry_name d)"
  let ?P2 = "Join ?P1 (entry_name entry)"
  have P1: "?P1 = join_prefix r @ entry_name d"
    by (rule Join_prefix [OF vd(1)])
  have P2: "?P2 = ?P1 @ ''/'' @ entry_name entry"
    by (rule Join_cleaned_append [OF Join_cleaned [OF vd(1)] ve(1)])
  from tree_paths_extend [OF Join_cleaned [OF ve(1)] ve(2) p]
  have "p = ?P2 \<or> (\<exists>s. p = ?P2 @ ''/'' @ s)" .
  with P1 P2 obtain t where pt: "p = join_prefix r @ entry_name d @ ''/'' @ t"
    by auto
  show ?thesis
  proof
    assume "p \<in> set (map Path (top_files b r fs))"
    then have "p \<in> set (map (\<lambda>entry. Join r (entry_name entry)) (filter is_file entries))"
      unfolding Dir Path_top_files .
    then obtain c where c: "c \<in> set entries" and pc: "p = Join r (entry_name c)"
      by auto
    from assms(1) Dir c have vc: "valid_name (entry_name c)"
      by simp
    from pc Join_prefix [OF vc, of r] pt have "entry_name c = entry_name d @ ''/'' @ t"
      by simp
    then have "CHR ''/'' \<in> set (entry_name c)"
      by simp
    with vc show False
      by (simp add: valid_name_def)
  qed
qed (use assms(2) in \<open>simp_all add: inner_paths_def\<close>)

lemma Name_top_files:
  "map Name (concat (map (\<lambda>entry. tree_files b (Join path (entry_name entry)) entry)
                         (filter is_file entries)))
     = map entry_name (filter is_file entries)"
proof (induction entries)
  case Nil
  show ?case by simp
next
  case (Cons entry entries)
  then show ?case
    by (cases entry) (simp_all add: fileBundle_def Let_def)
qed

lemma foldl_add_sum_list:
  "foldl (\<lambda>total f. total + g f) a xs = a + sum_list (map g xs)" for a :: "'a::monoid_add"
  by (induction xs arbitrary: a) (simp_all add: add.assoc)

lemma sint_sum_list_exact:
  fixes ws :: "64 word list"
  shows "(\<forall>w\<in>set ws. 0 \<le> sint w) \<Longrightarrow> (\<Sum>w\<leftarrow>ws. sint w) < 2 ^ 63 \<Longrightarrow>
           sint (sum_list ws) = (\<Sum>w\<leftarrow>ws. sint w)"
proof (induction ws)
  case Nil
  then show ?case by simp
next
  case (Cons w ws)
  have nonneg: "0 \<le> (\<Sum>w\<leftarrow>ws. sint w)"
    using Cons.prems(1) by (intro sum_list_nonneg) auto
  have w0: "0 \<le> sint w" using Cons.prems(1) by simp
  have tot: "sint w + (\<Sum>w\<leftarrow>ws. sint w) < 2 ^ 63"
    using Cons.prems(2) by simp
  then have "(\<Sum>w\<leftarrow>ws. sint w) < 2 ^ 63" using w0 by linarith
  with Cons have ih: "sint (sum_list ws) = (\<Sum>w\<leftarrow>ws. sint w)" by simp
  have "sint (w + sum_list ws) = signed_take_bit 63 (sint w + sint (sum_list ws))"
    by (simp add: sint_word_ariths)
  also have "\<dots> = sint w + sint (sum_list ws)"
    using w0 nonneg tot ih by (intro signed_take_bit_int_eq_self) simp_all
  finally show ?case using ih by simp
qed

lemma uint_sum_list_mod:
  fixes ws :: "64 word list"
  shows "uint (sum_list ws) = (\<Sum>w\<leftarrow>ws. uint w) mod 2 ^ 64"
proof (induction ws)
  case Nil
  show ?case by simp
next
  case (Cons w ws)
  have "uint (w + sum_list ws) = (uint w + uint (sum_list ws)) mod 2 ^ 64"
    by (simp add: uint_word_ariths)
  also have "\<dots> = (uint w + (\<Sum>w\<leftarrow>ws. uint w)) mod 2 ^ 64"
    unfolding Cons.IH by (simp add: mod_add_right_eq)
  finally show ?case by simp
qed

text \<open>Two runs on the small project, without and with recursion.\<close>

lemma sample_tree_flat:
  "\<exists>bundle. BuildBundle (NewBundler ''proj'' False) sample_tree 42 = Inr bundle
     \<and> map Path (Files bundle) = [''proj/a.md'', ''proj/z.BIN'']
     \<and> map SizeBytes (Files bundle) = [10, 7]"
  by (simp add: BuildBundle_def NewBundler_def sample_tree_def Walk_def walk.simps walkFn_def
      fileBundle_def Join_def Clean_def Let_def not_sep_def add_slash_def dotdot_element_def
      clean_loop.simps)

lemma sample_tree_deep:
  "\<exists>bundle. BuildBundle (NewBundler ''proj'' True) sample_tree 42 = Inr bundle
     \<and> map Path (Files bundle) = [''proj/a.md'', ''proj/sub/deep.go'', ''proj/z.BIN'']
     \<and> map SizeBytes (Files bundle) = [10, 3, 7]"
  by (simp add: BuildBundle_def NewBundler_def sample_tree_def Walk_def walk.simps walkFn_def
      fileBundle_def Join_def Clean_def Let_def not_sep_def add_slash_def dotdot_element_def
      clean_loop.simps)

subsection \<open>The summary\<close>

text \<open>
  C1 as stated asks that \<open>Summary.TotalSize\<close> is the sum of the sizes for every successful
  run. The code adds the sizes in an \<^verbatim>\<open>int64\<close>, which wraps around: with files of
  \<open>2^62\<close>, \<open>2^62\<close> and 5 bytes, whose sizes sum to 9223372036854775813, the run succeeds
  and \<open>TotalSize\<close> is -9223372036854775803.
\<close>

theorem total_size_overflow_counterexample:
  "BuildBundle (NewBundler ''proj'' False) huge_tree 42 =
     Inr \<lparr>Version = ''1.0'', BundleCreatedAt = 42, SourceDir = ''proj'',
          Description = ''Generated bundle (metadata only)'',
          Files =
            [\<lparr>Path = ''proj/a.img'', RelativePath = ''a.img'', Name = ''a.img'',
               Extension = ''.img'', MIMEType = ''application/octet-stream'', FileType = ''binary'',
               Language = [], Encoding = [], SizeBytes = 4611686018427387904, Hash = [],
               CreatedAt = 5, ModifiedAt = 5, TokenCount = 0,
               Metadata = None, Document = None\<rparr>,
             \<lparr>Path = ''proj/b.img'', RelativePath = ''b.img'', Name = ''b.img'',
               Extension = ''.img'', MIMEType = ''application/octet-stream'', FileType = ''binary'',
               Language = [], Encoding = [], SizeBytes = 4611686018427387904, Hash = [],
               CreatedAt = 6, ModifiedAt = 6, TokenCount = 0,
               Metadata = None, Document = None\<rparr>,
             \<lparr>Path = ''proj/c.txt'', RelativePath = ''c.txt'', Name = ''c.txt'',
               Extension = ''.txt'', MIMEType = ''text/plain'', FileType = ''text'',
               Language = [], Encoding = [], SizeBytes = 5, Hash = [],
               CreatedAt = 7, ModifiedAt = 7, TokenCount = 0,
               Metadata = None, Document = None\<rparr>],
          Summary =
            Some \<lparr>TotalFiles = 3, TotalTokens = 0, TotalSize = - 9223372036854775803,
                  AvgTokens = 0, LargestFile = [], LargestTokens = 0, EstimatedModel = []\<rparr>,
          Generator = ''aingest v0.1.0'', TokenSettings = None\<rparr>
   \<and> sint (- 9223372036854775803 :: int64) = - 9223372036854775803
   \<and> sint (4611686018427387904 :: int64) + sint (4611686018427387904 :: int64) + sint (5 :: int64)
       = 9223372036854775813"
  by (simp add: huge_tree_def BuildBundle_def NewBundler_def Walk_def walk.simps walkFn_def
      fileBundle_def Join_def Clean_def Let_def not_sep_def add_slash_def dotdot_element_def
      clean_loop.simps Rel_def rel_loop.simps skip_sep_def Ext_def detectMIME_def classifyType_def)

text \<open>
  C1, amended. For every successful run of \<open>BuildBundle\<close>, \<open>Summary.TotalFiles\<close> is the
  length of \<open>Files\<close>, and \<open>Summary.TotalSize\<close> is the sum of \<open>SizeBytes\<close> over
  \<open>Files\<close> as \<^verbatim>\<open>int64\<close> addition computes it, that is modulo \<open>2^64\<close>; it is the sum of
  the sizes as integers whenever no size is negative and their total is below \<open>2^63\<close>.
\<close>

theorem summary_totals:
  assumes "BuildBundle b fs now = Inr bundle"
  shows "\<exists>s. Summary bundle = Some s
           \<and> TotalFiles s = int (length (Files bundle))
           \<and> TotalSize s = sum_list (map SizeBytes (Files bundle))
           \<and> uint (TotalSize s) = (\<Sum>f\<leftarrow>Files bundle. uint (SizeBytes f)) mod 2 ^ 64
           \<and> ((\<forall>f\<in>set (Files bundle). 0 \<le> sint (SizeBytes f))
                \<and> (\<Sum>f\<leftarrow>Files bundle. sint (SizeBytes f)) < 2 ^ 63
              \<longrightarrow> sint (TotalSize s) = (\<Sum>f\<leftarrow>Files bundle. sint (SizeBytes f)))"
proof -
  let ?s = "\<lparr>TotalFiles = int (length (Files bundle)),
             TotalTokens = 0,
             TotalSize = foldl (\<lambda>total f. total + SizeBytes f) 0 (Files bundle),
             AvgTokens = 0,
             LargestFile = [],
             LargestTokens = 0,
             EstimatedModel = []\<rparr>"
  have s: "Summary bundle = Some ?s"
    by (rule BuildBundle_Inr(2) [OF assms])
  have total: "TotalSize ?s = sum_list (map SizeBytes (Files bundle))"
    by (simp add: foldl_add_sum_list)
  have modulo: "uint (TotalSize ?s) = (\<Sum>f\<leftarrow>Files bundle. uint (SizeBytes f)) mod 2 ^ 64"
    using uint_sum_list_mod [of "map SizeBytes (Files bundle)"] total
    by (simp add: comp_def)
  have files: "TotalFiles ?s = int (length (Files bundle))"
    by simp
  have exact: "sint (TotalSize ?s) = (\<Sum>f\<leftarrow>Files bundle. sint (SizeBytes f))"
    if "\<forall>f\<in>set (Files bundle). 0 \<le> sint (SizeBytes f)"
      and "(\<Sum>f\<leftarrow>Files bundle. sint (SizeBytes f)) < 2 ^ 63"
    using sint_sum_list_exact [of "map SizeBytes (Files bundle)"] that total
    by (simp add: comp_def)
  show ?thesis
  proof (intro exI [of _ ?s] conjI impI)
    show "Summary bundle = Some ?s" by (rule s)
    show "TotalFiles ?s = int (length (Files bundle))" by (rule files)
    show "TotalSize ?s = sum_list (map SizeBytes (Files bundle))" by (rule total)
    show "uint (TotalSize ?s) = (\<Sum>f\<leftarrow>Files bundle. uint (SizeBytes f)) mod 2 ^ 64"
      by (rule modulo)
    show "sint (TotalSize ?s) = (\<Sum>f\<leftarrow>Files bundle. sint (SizeBytes f))"
      if "(\<forall>f\<in>set (Files bundle). 0 \<le> sint (SizeBytes f))
          \<and> (\<Sum>f\<leftarrow>Files bundle. sint (SizeBytes f)) < 2 ^ 63"
      using exact that by blast
  qed
qed

theorem summary_totals_witness:
  "\<exists>bundle s. BuildBundle (NewBundler ''proj'' True) sample_tree 42 = Inr bundle
     \<and> Summary bundle = Some s \<and> length (Files bundle) = 3
     \<and> TotalFiles s = 3 \<and> TotalSize s = 20 \<and> sint (TotalSize s) = 20"
proof -
  from sample_tree_deep obtain bnd
    where h: "BuildBundle (NewBundler ''proj'' True) sample_tree 42 = Inr bnd"
      and sizes: "map SizeBytes (Files bnd) = [10, 3, 7]"
    by auto
  have len: "length (Files bnd) = 3"
    using arg_cong [OF sizes, of length] by simp
  have sints: "map (\<lambda>f. sint (SizeBytes f)) (Files bnd) = [10, 3, 7]"
    using arg_cong [OF sizes, of "map sint"] by (simp add: comp_def)
  have nonneg: "\<forall>f\<in>set (Files bnd). 0 \<le> sint (SizeBytes f)"
  proof
    fix f assume "f \<in> set (Files bnd)"
    then have "sint (SizeBytes f) \<in> set (map (\<lambda>f. sint (SizeBytes f)) (Files bnd))"
      by simp
    then show "0 \<le> sint (SizeBytes f)"
      unfolding sints by auto
  qed
  from summary_totals [OF h] len sizes sints nonneg h show ?thesis
    by auto
qed

text \<open>
  C5. In every bundle that \<open>BuildBundle\<close> returns, \<open>Summary.AvgTokens\<close> is 0 when there
  are no files, and otherwise \<open>Summary.TotalFiles\<close> is the number of files, which is not 0,
  and \<open>AvgTokens\<close> is \<open>Summary.TotalTokens\<close> divided by it (the code sets neither
  \<open>AvgTokens\<close> nor \<open>TotalTokens\<close>, so both sides are 0).
\<close>

theorem average_tokens:
  assumes "BuildBundle b fs now = Inr bundle"
  shows "\<exists>s. Summary bundle = Some s
           \<and> (Files bundle = [] \<longrightarrow> TotalFiles s = 0 \<and> AvgTokens s = 0)
           \<and> (Files bundle \<noteq> [] \<longrightarrow>
                TotalFiles s = int (length (Files bundle)) \<and> TotalFiles s \<noteq> 0
                \<and> AvgTokens s = real_of_int (TotalTokens s) / real_of_int (TotalFiles s))"
  using BuildBundle_Inr(2) [OF assms] by simp

theorem average_tokens_witness:
  "\<exists>bundle s. BuildBundle (NewBundler ''proj'' False) sample_tree 42 = Inr bundle
     \<and> Files bundle \<noteq> [] \<and> Summary bundle = Some s
     \<and> TotalFiles s = 2 \<and> TotalFiles s \<noteq> 0
     \<and> AvgTokens s = real_of_int (TotalTokens s) / real_of_int (TotalFiles s)"
proof -
  from sample_tree_flat obtain bnd
    where h: "BuildBundle (NewBundler ''proj'' False) sample_tree 42 = Inr bnd"
      and paths: "map Path (Files bnd) = [''proj/a.md'', ''proj/z.BIN'']"
    by auto
  from paths have "Files bnd \<noteq> []" by auto
  moreover have "length (Files bnd) = 2"
    using arg_cong [OF paths, of length] by simp
  ultimately show ?thesis
    using average_tokens [OF h] h by auto
qed

text \<open>
  C6 as stated asks that \<open>Summary.LargestFile\<close> names the first file with the greatest
  token count. The code never sets the field: a run that returns two files, both with token
  count 0, leaves \<open>LargestFile\<close> empty, which is neither file's path, relative path or name.
\<close>

theorem largest_file_counterexample:
  "BuildBundle (NewBundler ''proj'' False) sample_tree 42 =
     Inr \<lparr>Version = ''1.0'', BundleCreatedAt = 42, SourceDir = ''proj'',
          Description = ''Generated bundle (metadata only)'',
          Files =
            [\<lparr>Path = ''proj/a.md'', RelativePath = ''a.md'', Name = ''a.md'',
               Extension = ''.md'', MIMEType = ''text/markdown'', FileType = ''text'',
               Language = [], Encoding = [], SizeBytes = 10, Hash = [],
               CreatedAt = 5, ModifiedAt = 5, TokenCount = 0,
               Metadata = None, Document = None\<rparr>,
             \<lparr>Path = ''proj/z.BIN'', RelativePath = ''z.BIN'', Name = ''z.BIN'',
               Extension = ''.BIN'', MIMEType = ''application/octet-stream'', FileType = ''binary'',
               Language = [], Encoding = [], SizeBytes = 7, Hash = [],
               CreatedAt = 6, ModifiedAt = 6, TokenCount = 0,
               Metadata = None, Document = None\<rparr>],
          Summary =
            Some \<lparr>TotalFiles = 2, TotalTokens = 0, TotalSize = 17, AvgTokens = 0,
                  LargestFile = [], LargestTokens = 0, EstimatedModel = []\<rparr>,
          Generator = ''aingest v0.1.0'', TokenSettings = None\<rparr>"
  by (simp add: sample_tree_def BuildBundle_def NewBundler_def Walk_def walk.simps walkFn_def
      fileBundle_def Join_def Clean_def Let_def not_sep_def add_slash_def dotdot_element_def
      clean_loop.simps Rel_def rel_loop.simps skip_sep_def Ext_def detectMIME_def classifyType_def)

text \<open>
  C6, amended. In every bundle that \<open>BuildBundle\<close> returns, \<open>Summary.LargestFile\<close> is
  the empty string and \<open>Summary.LargestTokens\<close> is 0, which is the token count of every
  file: the summary names no largest file.
\<close>

theorem largest_file_never_set:
  assumes "BuildBundle b fs now = Inr bundle"
  shows "\<exists>s. Summary bundle = Some s \<and> LargestFile s = [] \<and> LargestTokens s = 0
           \<and> (\<forall>f\<in>set (Files bundle). TokenCount f = LargestTokens s)"
proof -
  have "TokenCount f = 0" if "f \<in> set (Files bundle)" for f
    using BuildBundle_produced [OF assms that] by (auto simp: produced_def fileBundle_def Let_def)
  with BuildBundle_Inr(2) [OF assms] show ?thesis by simp
qed

theorem largest_file_never_set_witness:
  "\<exists>bundle s. BuildBundle (NewBundler ''proj'' True) sample_tree 42 = Inr bundle
     \<and> length (Files bundle) = 3 \<and> Summary bundle = Some s
     \<and> LargestFile s = [] \<and> LargestTokens s = 0"
proof -
  from sample_tree_deep obtain bnd
    where h: "BuildBundle (NewBundler ''proj'' True) sample_tree 42 = Inr bnd"
      and sizes: "map SizeBytes (Files bnd) = [10, 3, 7]"
    by auto
  have "length (Files bnd) = 3"
    using arg_cong [OF sizes, of length] by simp
  with largest_file_never_set [OF h] h show ?thesis by auto
qed



subsection \<open>The records\<close>

text \<open>
  C8. Every record of a bundle that \<open>BuildBundle\<close> returns has \<open>TokenCount\<close> 0 and no
  \<open>Document\<close>, \<open>Hash\<close>, \<open>Language\<close>, \<open>Encoding\<close> or \<open>Metadata\<close>, and
  \<open>Summary.TotalTokens\<close> is 0.
\<close>

theorem metadata_only_records:
  assumes "BuildBundle b fs now = Inr bundle"
  shows "(\<forall>f\<in>set (Files bundle).
            TokenCount f = 0 \<and> Document f = None \<and> Hash f = [] \<and> Language f = []
            \<and> Encoding f = [] \<and> Metadata f = None)
         \<and> (\<exists>s. Summary bundle = Some s \<and> TotalTokens s = 0)"
proof -
  have "TokenCount f = 0 \<and> Document f = None \<and> Hash f = [] \<and> Language f = []
          \<and> Encoding f = [] \<and> Metadata f = None"
    if "f \<in> set (Files bundle)" for f
    using BuildBundle_produced [OF assms that]
    by (auto simp: produced_def fileBundle_def Let_def)
  moreover have "\<exists>s. Summary bundle = Some s \<and> TotalTokens s = 0"
    using BuildBundle_Inr(2) [OF assms] by simp
  ultimately show ?thesis by blast
qed

theorem metadata_only_records_witness:
  "\<exists>bundle s. BuildBundle (NewBundler ''proj'' True) sample_tree 42 = Inr bundle
     \<and> length (Files bundle) = 3
     \<and> (\<forall>f\<in>set (Files bundle). TokenCount f = 0 \<and> Document f = None \<and> Metadata f = None)
     \<and> Summary bundle = Some s \<and> TotalTokens s = 0"
proof -
  from sample_tree_deep obtain bnd
    where h: "BuildBundle (NewBundler ''proj'' True) sample_tree 42 = Inr bnd"
      and sizes: "map SizeBytes (Files bnd) = [10, 3, 7]"
    by auto
  have "length (Files bnd) = 3"
    using arg_cong [OF sizes, of length] by simp
  with metadata_only_records [OF h] h show ?thesis by auto
qed

text \<open>
  C9. Every record of a bundle that \<open>BuildBundle\<close> returns has \<open>CreatedAt\<close> equal to
  \<open>ModifiedAt\<close>: both are the modification time of a non-directory of the tree that has
  the record's name.
\<close>

theorem created_equals_modified:
  assumes "BuildBundle b fs now = Inr bundle" and "f \<in> set (Files bundle)"
  shows "CreatedAt f = ModifiedAt f
         \<and> (\<exists>n\<in>set (nodes fs). \<exists>info. lstat n = Inr info \<and> \<not> fi_IsDir info
               \<and> Name f = fi_Name info \<and> CreatedAt f = fi_ModTime info
               \<and> ModifiedAt f = fi_ModTime info)"
proof -
  from BuildBundle_produced [OF assms] obtain p n i
    where n: "n \<in> set (nodes fs)" "lstat n = Inr i" "\<not> fi_IsDir i"
      and f: "f = fileBundle b p i"
    unfolding produced_def by blast
  from f have "CreatedAt f = fi_ModTime i" "ModifiedAt f = fi_ModTime i" "Name f = fi_Name i"
    by (simp_all add: fileBundle_def Let_def)
  with n show ?thesis by auto
qed

theorem created_equals_modified_witness:
  "\<exists>bundle f. BuildBundle (NewBundler ''proj'' False) sample_tree 42 = Inr bundle
     \<and> f \<in> set (Files bundle) \<and> Path f = ''proj/a.md'' \<and> CreatedAt f = ModifiedAt f"
proof -
  from sample_tree_flat obtain bnd
    where h: "BuildBundle (NewBundler ''proj'' False) sample_tree 42 = Inr bnd"
      and paths: "map Path (Files bnd) = [''proj/a.md'', ''proj/z.BIN'']"
    by auto
  from paths obtain f where f: "f \<in> set (Files bnd)" "Path f = ''proj/a.md''"
    by (cases "Files bnd") auto
  with created_equals_modified [OF h f(1)] h show ?thesis by blast
qed

subsection \<open>Errors and recursion\<close>

text \<open>
  C2 as stated asks that a failure on one entry is recorded in that entry's record and that the
  build goes on. The callback returns every error it is given and records none: with a
  subdirectory whose names cannot be read, the whole build returns that error and no bundle.
\<close>

theorem entry_failure_counterexample:
  "BuildBundle (NewBundler ''proj'' True) locked_tree 42 =
     Inl (PathError ''open proj/private: permission denied'')"
  by (simp add: locked_tree_def BuildBundle_def NewBundler_def Walk_def walk.simps walkFn_def
      fileBundle_def Join_def Clean_def Let_def not_sep_def add_slash_def dotdot_element_def
      clean_loop.simps)

text \<open>
  C2, amended. For every run of \<open>BuildBundle\<close>, the first failure that the walk meets, be
  it \<^verbatim>\<open>Lstat\<close> failing on the root or on an entry the walk reaches, or a reached directory
  whose names cannot be read, aborts the whole build: \<open>BuildBundle\<close> returns that error and
  no bundle. It returns a bundle when no reached entry fails, and no record of a returned
  bundle carries metadata. (The entries of the root have names a directory can hold.)
\<close>

theorem walk_error_aborts_build:
  assumes "Recursive b \<or> (\<forall>entry\<in>set (dir_entries fs). valid_name (entry_name entry))"
  shows "(\<forall>m. first_error (visited b fs) = Some m \<longrightarrow> BuildBundle b fs now = Inl (PathError m))
         \<and> (first_error (visited b fs) = None \<longrightarrow> (\<exists>bundle. BuildBundle b fs now = Inr bundle))
         \<and> (\<forall>bundle. BuildBundle b fs now = Inr bundle \<longrightarrow>
               (\<forall>f\<in>set (Files bundle). Metadata f = None))"
proof -
  have "Metadata f = None" if "BuildBundle b fs now = Inr bnd" "f \<in> set (Files bnd)"
    for bnd f
    using BuildBundle_produced [OF that] by (auto simp: produced_def fileBundle_def Let_def)
  with BuildBundle_fails [OF assms] BuildBundle_succeeds [OF assms] show ?thesis
    by blast
qed

theorem walk_error_aborts_build_witness:
  "first_error (visited (NewBundler ''proj'' False) locked_tree)
     = Some ''open proj/private: permission denied''
   \<and> BuildBundle (NewBundler ''proj'' False) locked_tree 42
     = Inl (PathError ''open proj/private: permission denied'')
   \<and> first_error (visited (NewBundler ''proj'' True) sample_tree) = None
   \<and> (\<exists>bundle. BuildBundle (NewBundler ''proj'' True) sample_tree 42 = Inr bundle
         \<and> Files bundle \<noteq> [] \<and> (\<forall>f\<in>set (Files bundle). Metadata f = None))"
proof -
  have valid: "Recursive (NewBundler ''proj'' False)
      \<or> (\<forall>entry\<in>set (dir_entries locked_tree). valid_name (entry_name entry))"
    by (simp add: locked_tree_def valid_name_def)
  have err: "first_error (visited (NewBundler ''proj'' False) locked_tree)
      = Some ''open proj/private: permission denied''"
    by (simp add: visited_def NewBundler_def locked_tree_def)
  have rec: "Recursive (NewBundler ''proj'' True)
      \<or> (\<forall>entry\<in>set (dir_entries sample_tree). valid_name (entry_name entry))"
    by (simp add: NewBundler_def)
  have ok: "first_error (visited (NewBundler ''proj'' True) sample_tree) = None"
    by (simp add: visited_def NewBundler_def sample_tree_def)
  from sample_tree_deep obtain bnd
    where h: "BuildBundle (NewBundler ''proj'' True) sample_tree 42 = Inr bnd"
      and paths: "map Path (Files bnd) = [''proj/a.md'', ''proj/sub/deep.go'', ''proj/z.BIN'']"
    by auto
  from paths have "Files bnd \<noteq> []" by auto
  with walk_error_aborts_build [OF valid, of 42] err
    walk_error_aborts_build [OF rec, of 42] ok h
  show ?thesis by auto
qed

text \<open>
  C3. For every run with \<open>Recursive\<close> false, \<open>Files\<close> holds exactly the records of the
  non-directories among the immediate entries of the root, in the order of the walk: every
  subdirectory is pruned with its whole subtree, so no entry inside a subdirectory, at any
  depth, has a record: the names of the records are the names of those entries, and the path
  of an entry located inside a subdirectory is the \<open>Path\<close> of no record. With
  \<open>Recursive\<close> true the subdirectories are descended into, and \<open>Files\<close> holds the
  records of all non-directories of the tree. (The entries have names a directory can hold.)
\<close>

theorem recursion_flag_selects_files:
  assumes "BuildBundle b fs now = Inr bundle"
    and "Recursive b \<or> (\<forall>entry\<in>set (dir_entries fs). valid_name (entry_name entry))"
  shows "Files bundle = (if Recursive b then tree_files b (RootPath b) fs
                         else top_files b (RootPath b) fs)
         \<and> (\<not> Recursive b \<longrightarrow> (\<forall>n sz mt entries. fs = Dir n sz mt entries \<longrightarrow>
               map Name (Files bundle) = map entry_name (filter is_file entries)))
         \<and> (\<not> Recursive b \<and> valid_tree fs \<longrightarrow>
               (\<forall>p\<in>set (inner_paths (RootPath b) fs). p \<notin> set (map Path (Files bundle))))"
proof -
  have files: "Files bundle = (if Recursive b then tree_files b (RootPath b) fs
                               else top_files b (RootPath b) fs)"
    by (rule BuildBundle_files [OF assms(2,1)])
  then have "map Name (Files bundle) = map entry_name (filter is_file entries)"
    if "\<not> Recursive b" "fs = Dir n sz mt entries" for n sz mt entries
    using that by (simp add: Name_top_files)
  moreover have "p \<notin> set (map Path (Files bundle))"
    if "\<not> Recursive b" "valid_tree fs" "p \<in> set (inner_paths (RootPath b) fs)" for p
    using inner_paths_absent [OF that(2,3), of b] files that(1) by simp
  ultimately show ?thesis
    using files by blast
qed

theorem recursion_flag_selects_files_witness:
  "\<exists>flat deep.
     BuildBundle (NewBundler ''proj'' False) sample_tree 42 = Inr flat
     \<and> Files flat = top_files (NewBundler ''proj'' False) ''proj'' sample_tree
     \<and> map Path (Files flat) = [''proj/a.md'', ''proj/z.BIN'']
     \<and> map Name (Files flat) = [''a.md'', ''z.BIN'']
     \<and> ''proj/sub/deep.go'' \<in> set (inner_paths ''proj'' sample_tree)
     \<and> ''proj/sub/deep.go'' \<notin> set (map Path (Files flat))
     \<and> BuildBundle (NewBundler ''proj'' True) sample_tree 42 = Inr deep
     \<and> Files deep = tree_files (NewBundler ''proj'' True) ''proj'' sample_tree
     \<and> map Path (Files deep) = [''proj/a.md'', ''proj/sub/deep.go'', ''proj/z.BIN'']"
proof -
  from sample_tree_flat obtain flat
    where f: "BuildBundle (NewBundler ''proj'' False) sample_tree 42 = Inr flat"
      and fp: "map Path (Files flat) = [''proj/a.md'', ''proj/z.BIN'']"
    by auto
  from sample_tree_deep obtain deep
    where d: "BuildBundle (NewBundler ''proj'' True) sample_tree 42 = Inr deep"
      and dp: "map Path (Files deep) = [''proj/a.md'', ''proj/sub/deep.go'', ''proj/z.BIN'']"
    by auto
  have valid: "Recursive (NewBundler ''proj'' False)
      \<or> (\<forall>entry\<in>set (dir_entries sample_tree). valid_name (entry_name entry))"
    by (simp add: sample_tree_def valid_name_def)
  have rec: "Recursive (NewBundler ''proj'' True)
      \<or> (\<forall>entry\<in>set (dir_entries sample_tree). valid_name (entry_name entry))"
    by (simp add: NewBundler_def)
  from recursion_flag_selects_files [OF f valid] recursion_flag_selects_files [OF d rec]
  have "Files flat = top_files (NewBundler ''proj'' False) ''proj'' sample_tree"
    and "Files deep = tree_files (NewBundler ''proj'' True) ''proj'' sample_tree"
    by (simp_all add: NewBundler_def)
  moreover from recursion_flag_selects_files [OF f valid, THEN conjunct2, THEN conjunct1]
  have "map Name (Files flat) = [''a.md'', ''z.BIN'']"
    unfolding sample_tree_def by (simp add: NewBundler_def)
  moreover have "valid_tree sample_tree"
    by (simp add: sample_tree_def valid_name_def)
  moreover have inner: "''proj/sub/deep.go'' \<in> set (inner_paths ''proj'' sample_tree)"
    by (simp add: inner_paths_def sample_tree_def Join_def Clean_def Let_def not_sep_def
        add_slash_def dotdot_element_def clean_loop.simps)
  ultimately have "''proj/sub/deep.go'' \<notin> set (map Path (Files flat))"
    using recursion_flag_selects_files [OF f valid, THEN conjunct2, THEN conjunct2]
    by (simp add: NewBundler_def)
  with \<open>Files flat = top_files (NewBundler ''proj'' False) ''proj'' sample_tree\<close>
    \<open>Files deep = tree_files (NewBundler ''proj'' True) ''proj'' sample_tree\<close>
    \<open>map Name (Files flat) = [''a.md'', ''z.BIN'']\<close> inner
  show ?thesis
    using f fp d dp by (intro exI [of _ flat] exI [of _ deep]) simp
qed

end
